theory Spec2Isabelle
  imports Complex_Main "HOL-Library.AList" "HOL-Library.Char_ord" "HOL-Library.List_Lexorder"
begin

section \<open>News sentiment analysis: the analyzer and the data manager\<close>

text \<open>
  A shallow embedding of \<^verbatim>\<open>src/sentiment_analyzer.py\<close>, \<^verbatim>\<open>src/data_manager.py\<close> and
  \<^verbatim>\<open>config.py\<close>.

  \<^item> Python floats are modelled as exact \<^typ>\<open>real\<close> numbers: sums, products, quotients and
    comparisons are the mathematical ones, without binary rounding.
  \<^item> A Python \<^verbatim>\<open>str\<close> is a \<^typ>\<open>string\<close>, one \<^typ>\<open>char\<close> per code point, so the model
    covers texts over the code points 0..255; the classes \<^verbatim>\<open>\s\<close> and \<^verbatim>\<open>\w\<close> are the ones
    of Python's Unicode-aware \<^verbatim>\<open>re\<close> module restricted to that range.
  \<^item> A \<^verbatim>\<open>dict\<close> whose iteration order matters is an association list in insertion order.
  \<^item> Every \<^verbatim>\<open>raise\<close> is a value \<open>Inl e\<close> of a sum type.
\<close>

datatype py_error = KeyError string | ValueError | OperationalError | AdapterError

subsection \<open>Configuration\<close>

definition CONFIDENCE_THRESHOLD :: real where
  "CONFIDENCE_THRESHOLD = 0.6"

subsection \<open>Regular expressions as used by \<^verbatim>\<open>re.sub\<close>\<close>

text \<open>
  The four patterns of \<^verbatim>\<open>_preprocess_text\<close> use character classes, sequencing,
  alternation, \<^verbatim>\<open>?\<close> and \<^verbatim>\<open>+\<close>. \<open>rmatch r s\<close> lists the remainders of \<open>s\<close> after
  every way \<open>r\<close> can match a prefix of \<open>s\<close>, in the order in which Python's backtracking
  matcher tries them (earlier alternative first, greedy repetition first), so the head of
  the list is the match \<^verbatim>\<open>re\<close> reports at that position.
\<close>

datatype regex =
    Eps
  | Class "char \<Rightarrow> bool"
  | Seq regex regex
  | Alt regex regex
  | Opt regex
  | Plus regex

fun rmatch :: "regex \<Rightarrow> string \<Rightarrow> string list" where
  "rmatch Eps s = [s]"
| "rmatch (Class P) s = (case s of [] \<Rightarrow> [] | c # t \<Rightarrow> if P c then [t] else [])"
| "rmatch (Seq a b) s = concat (map (rmatch b) (rmatch a s))"
| "rmatch (Alt a b) s = rmatch a s @ rmatch b s"
| "rmatch (Opt a) s = rmatch a s @ [s]"
| "rmatch (Plus a) s =
     concat (map (\<lambda>t. (if length t < length s then rmatch (Plus a) t else []) @ [t]) (rmatch a s))"

text \<open>The equation for \<open>Plus\<close> rewrites its own right-hand side; it is unfolded by hand.\<close>

declare rmatch.simps(6) [simp del]

text \<open>
  \<^verbatim>\<open>re.sub(pattern, repl, text)\<close> with a constant replacement: scan from the left, replace
  the first match found at the current position and continue behind it, otherwise copy one
  character. None of the patterns below matches the empty string; a match that consumes
  nothing is treated as no match.
\<close>

function re_sub :: "regex \<Rightarrow> string \<Rightarrow> string \<Rightarrow> string" where
  "re_sub r repl [] = []"
| "re_sub r repl (c # s) =
     (case rmatch r (c # s) of
        [] \<Rightarrow> c # re_sub r repl s
      | t # _ \<Rightarrow> if length t < length (c # s) then repl @ re_sub r repl t
                 else c # re_sub r repl s)"
  by pat_completeness auto
termination
  by (relation "measure (\<lambda>(r, repl, s). length s)") auto

definition lit :: "string \<Rightarrow> regex" where
  "lit cs = foldr (\<lambda>c r. Seq (Class (\<lambda>x. x = c)) r) cs Eps"

definition in_range :: "char \<Rightarrow> char \<Rightarrow> char \<Rightarrow> bool" where
  "in_range lo hi c = (lo \<le> c \<and> c \<le> hi)"

definition code :: "char \<Rightarrow> nat" where
  "code c = of_char c"

text \<open>\<^verbatim>\<open>\s\<close>: code points 9-13, 28-32, 133 and 160; also what \<^verbatim>\<open>str.strip()\<close> removes.\<close>

definition is_space :: "char \<Rightarrow> bool" where
  "is_space c = ((9 \<le> code c \<and> code c \<le> 13) \<or> (28 \<le> code c \<and> code c \<le> 32)
                  \<or> code c = 133 \<or> code c = 160)"

text \<open>\<^verbatim>\<open>\w\<close>: the alphanumeric code points below 256 and the underscore.\<close>

definition is_word :: "char \<Rightarrow> bool" where
  "is_word c = (in_range CHR ''0'' CHR ''9'' c \<or> in_range CHR ''A'' CHR ''Z'' c
                \<or> c = CHR ''_'' \<or> in_range CHR ''a'' CHR ''z'' c
                \<or> code c \<in> {170, 178, 179, 181, 185, 186, 188, 189, 190}
                \<or> (192 \<le> code c \<and> code c \<le> 214) \<or> (216 \<le> code c \<and> code c \<le> 246)
                \<or> 248 \<le> code c)"

text \<open>
  \<^verbatim>\<open>http[s]?://(?:[a-zA-Z]|[0-9]|[$-_@.&+]|[!*\\(\\),]|(?:%[0-9a-fA-F][0-9a-fA-F]))+\<close>
\<close>

definition hex_digit :: "char \<Rightarrow> bool" where
  "hex_digit c = (in_range CHR ''0'' CHR ''9'' c \<or> in_range CHR ''a'' CHR ''f'' c
                  \<or> in_range CHR ''A'' CHR ''F'' c)"

definition url_char :: regex where
  "url_char =
     Alt (Class (\<lambda>c. in_range CHR ''a'' CHR ''z'' c \<or> in_range CHR ''A'' CHR ''Z'' c))
    (Alt (Class (in_range CHR ''0'' CHR ''9''))
    (Alt (Class (\<lambda>c. in_range CHR ''$'' CHR ''_'' c \<or> c \<in> set ''@.&+''))
    (Alt (Class (\<lambda>c. c \<in> set [CHR ''!'', CHR ''*'', CHR 0x5C, CHR ''('', CHR '')'', CHR '','']))
         (Seq (Class (\<lambda>c. c = CHR ''%'')) (Seq (Class hex_digit) (Class hex_digit))))))"

definition url_pattern :: regex where
  "url_pattern =
     Seq (lit ''http'') (Seq (Opt (Class (\<lambda>c. c = CHR ''s'')))
       (Seq (lit ''://'') (Plus url_char)))"

text \<open>\<^verbatim>\<open>\S+@\S+\<close>\<close>

definition email_pattern :: regex where
  "email_pattern =
     Seq (Plus (Class (\<lambda>c. \<not> is_space c)))
       (Seq (Class (\<lambda>c. c = CHR ''@'')) (Plus (Class (\<lambda>c. \<not> is_space c))))"

text \<open>\<^verbatim>\<open>\s+\<close>\<close>

definition whitespace_pattern :: regex where
  "whitespace_pattern = Plus (Class is_space)"

text \<open>\<^verbatim>\<open>[^\w\s.,!?;:-]\<close>\<close>

definition kept_char :: "char \<Rightarrow> bool" where
  "kept_char c = (is_word c \<or> is_space c \<or> c \<in> set ''.,!?;:-'')"

definition special_pattern :: regex where
  "special_pattern = Class (\<lambda>c. \<not> kept_char c)"

subsection \<open>\<^verbatim>\<open>SentimentAnalyzer._preprocess_text\<close>\<close>

definition max_length :: nat where
  "max_length = 512"

text \<open>\<^verbatim>\<open>text.split('.')\<close>: the pieces between the separators, always at least one piece.\<close>

fun split_on :: "char \<Rightarrow> string \<Rightarrow> string list" where
  "split_on sep [] = [[]]"
| "split_on sep (c # s) =
     (if c = sep then [] # split_on sep s
      else (case split_on sep s of [] \<Rightarrow> [[c]] | piece # pieces \<Rightarrow> (c # piece) # pieces))"

text \<open>The \<^verbatim>\<open>for sentence in sentences\<close> loop with its \<^verbatim>\<open>break\<close>.\<close>

fun take_sentences :: "string list \<Rightarrow> string \<Rightarrow> string" where
  "take_sentences [] truncated = truncated"
| "take_sentences (sentence # sentences) truncated =
     (if length (truncated @ sentence) < max_length
      then take_sentences sentences (truncated @ sentence @ ''.'')
      else truncated)"

definition limit_length :: "string \<Rightarrow> string" where
  "limit_length text =
     (if length text > max_length then
        (let sentences = split_on CHR ''.'' text;
             truncated = take_sentences sentences []
         in if truncated \<noteq> [] then truncated else take max_length text)
      else text)"

definition strip :: "string \<Rightarrow> string" where
  "strip s = rev (dropWhile is_space (rev (dropWhile is_space s)))"

definition preprocess_text :: "string \<Rightarrow> string" where
  "preprocess_text text =
     (let text = re_sub url_pattern [] text;
          text = re_sub email_pattern [] text;
          text = re_sub whitespace_pattern '' '' text;
          text = re_sub special_pattern [] text;
          text = limit_length text
      in strip text)"

text \<open>
  The value of \<^verbatim>\<open>text\<close> when \<^verbatim>\<open>_preprocess_text\<close> reaches its length limit: the input
  after the four substitutions.
\<close>

definition cleaned :: "string \<Rightarrow> string" where
  "cleaned text =
     re_sub special_pattern []
       (re_sub whitespace_pattern '' ''
         (re_sub email_pattern [] (re_sub url_pattern [] text)))"

text \<open>Two neighbouring blanks somewhere in a text.\<close>

fun adjacent_spaces :: "string \<Rightarrow> bool" where
  "adjacent_spaces (a # b # s) = ((a = CHR '' '' \<and> b = CHR '' '') \<or> adjacent_spaces (b # s))"
| "adjacent_spaces _ = False"

subsection \<open>Classifier adapters\<close>

record prediction =
  sentiment :: string
  confidence :: real
  scores :: "(string \<times> real) list"

text \<open>The dictionary returned by VADER's \<^verbatim>\<open>polarity_scores\<close>.\<close>

record vader_scores =
  neg :: real
  neu :: real
  pos :: real
  compound :: real

definition normalize_vader_output :: "vader_scores \<Rightarrow> prediction" where
  "normalize_vader_output vs =
     (let total = pos vs + neu vs + neg vs in
      \<lparr>sentiment = (if compound vs \<ge> 0.05 then ''positive''
                    else if compound vs \<le> - 0.05 then ''negative'' else ''neutral''),
       confidence = (if compound vs \<ge> 0.05 then \<bar>compound vs\<bar>
                     else if compound vs \<le> - 0.05 then \<bar>compound vs\<bar>
                     else 1 - \<bar>compound vs\<bar>),
       scores = [(''positive'', if total > 0 then pos vs / total else 0),
                 (''neutral'', if total > 0 then neu vs / total else 0),
                 (''negative'', if total > 0 then neg vs / total else 0)]\<rparr>)"

definition normalize_textblob_output :: "real \<Rightarrow> prediction" where
  "normalize_textblob_output polarity =
     (let pos_score = max 0 polarity;
          neg_score = max 0 (- polarity);
          neu_score = 1 - pos_score - neg_score in
      \<lparr>sentiment = (if polarity > 0.1 then ''positive''
                    else if polarity < - 0.1 then ''negative'' else ''neutral''),
       confidence = (if polarity > 0.1 then min \<bar>polarity\<bar> 1.0
                     else if polarity < - 0.1 then min \<bar>polarity\<bar> 1.0
                     else 1 - \<bar>polarity\<bar>),
       scores = [(''positive'', pos_score), (''neutral'', neu_score),
                 (''negative'', neg_score)]\<rparr>)"

text \<open>
  The analyzer object. \<open>models\<close> holds the keys of \<^verbatim>\<open>self.models\<close>. The classifier
  libraries are outside the repository: each is a function of the text that either fails
  or answers. For the two transformer models the function stands for the pipeline call
  followed by its normaliser, which run inside one \<^verbatim>\<open>try\<close> block.
\<close>

record analyzer =
  models :: "string list"
  roberta :: "string \<Rightarrow> py_error + prediction"
  finbert :: "string \<Rightarrow> py_error + prediction"
  polarity_scores :: "string \<Rightarrow> py_error + vader_scores"
  textblob_polarity :: "string \<Rightarrow> py_error + real"

definition get_ensemble_predictions :: "analyzer \<Rightarrow> string \<Rightarrow> (string \<times> prediction) list" where
  "get_ensemble_predictions a text =
     (if ''roberta'' \<in> set (models a)
      then (case roberta a text of Inl e \<Rightarrow> [] | Inr p \<Rightarrow> [(''roberta'', p)]) else []) @
     (if ''finbert'' \<in> set (models a)
      then (case finbert a text of Inl e \<Rightarrow> [] | Inr p \<Rightarrow> [(''finbert'', p)]) else []) @
     (case polarity_scores a text of
        Inl e \<Rightarrow> [] | Inr vs \<Rightarrow> [(''vader'', normalize_vader_output vs)]) @
     (case textblob_polarity a text of
        Inl e \<Rightarrow> [] | Inr polarity \<Rightarrow> [(''textblob'', normalize_textblob_output polarity)])"

subsection \<open>\<^verbatim>\<open>SentimentAnalyzer._ensemble_combine\<close>\<close>

definition weights :: "(string \<times> real) list" where
  "weights = [(''roberta'', 0.40), (''finbert'', 0.30), (''vader'', 0.20), (''textblob'', 0.10)]"

text \<open>\<^verbatim>\<open>d.get(key, default)\<close>\<close>

definition dict_get :: "(string \<times> 'a) list \<Rightarrow> string \<Rightarrow> 'a \<Rightarrow> 'a" where
  "dict_get d k dflt = (case map_of d k of Some v \<Rightarrow> v | None \<Rightarrow> dflt)"

text \<open>
  The inner loop \<^verbatim>\<open>combined_scores[sentiment] += score * weight\<close>: reading a label that
  is not a key of \<^verbatim>\<open>combined_scores\<close> raises \<^verbatim>\<open>KeyError\<close>.
\<close>

fun add_scores :: "real \<Rightarrow> (string \<times> real) list \<Rightarrow> (string \<times> real) list
    \<Rightarrow> py_error + (string \<times> real) list" where
  "add_scores weight [] combined = Inr combined"
| "add_scores weight ((s, score) # rest) combined =
     (case map_of combined s of
        None \<Rightarrow> Inl (KeyError s)
      | Some v \<Rightarrow> add_scores weight rest (AList.update s (v + score * weight) combined))"

fun combine_loop :: "(string \<times> prediction) list \<Rightarrow> (string \<times> real) list \<Rightarrow> real
    \<Rightarrow> py_error + ((string \<times> real) list \<times> real)" where
  "combine_loop [] combined total_weight = Inr (combined, total_weight)"
| "combine_loop ((model_name, p) # rest) combined total_weight =
     (let weight = dict_get weights model_name 0.1 in
      case add_scores weight (scores p) combined of
        Inl e \<Rightarrow> Inl e
      | Inr combined' \<Rightarrow> combine_loop rest combined' (total_weight + weight))"

text \<open>Initialisation, the combining loop and the normalisation by \<^verbatim>\<open>total_weight\<close>.\<close>

definition combined_scores :: "(string \<times> prediction) list \<Rightarrow> py_error + (string \<times> real) list" where
  "combined_scores predictions =
     (case combine_loop predictions
             [(''positive'', 0.0), (''negative'', 0.0), (''neutral'', 0.0)] 0.0 of
        Inl e \<Rightarrow> Inl e
      | Inr (combined, total_weight) \<Rightarrow>
          Inr (if total_weight > 0 then map (\<lambda>(s, v). (s, v / total_weight)) combined
               else combined))"

text \<open>
  \<^verbatim>\<open>max(d, key=d.get)\<close> together with the value found: the keys are visited in insertion
  order and the running maximum is replaced only by a strictly greater value.
\<close>

fun max_loop :: "(string \<times> real) list \<Rightarrow> string \<times> real \<Rightarrow> string \<times> real" where
  "max_loop [] best = best"
| "max_loop ((k, v) # rest) (bk, bv) = max_loop rest (if v > bv then (k, v) else (bk, bv))"

definition max_by_value :: "(string \<times> real) list \<Rightarrow> py_error + string \<times> real" where
  "max_by_value d = (case d of [] \<Rightarrow> Inl ValueError | kv # rest \<Rightarrow> Inr (max_loop rest kv))"

definition ensemble_combine :: "(string \<times> prediction) list
    \<Rightarrow> py_error + (string \<times> real \<times> (string \<times> real) list)" where
  "ensemble_combine predictions =
     (if predictions = [] then
        Inr (''neutral'', 0.5, [(''positive'', 0.33), (''negative'', 0.33), (''neutral'', 0.34)])
      else
        (case combined_scores predictions of
           Inl e \<Rightarrow> Inl e
         | Inr combined \<Rightarrow>
            (case max_by_value combined of
               Inl e \<Rightarrow> Inl e
             | Inr (final_sentiment, conf) \<Rightarrow>
                 if conf < CONFIDENCE_THRESHOLD then
                   (case map_of combined ''neutral'' of
                      None \<Rightarrow> Inl (KeyError ''neutral'')
                    | Some u \<Rightarrow> Inr (''neutral'', max u 0.5, combined))
                 else Inr (final_sentiment, conf, combined))))"

text \<open>
  The weighted mean in the words of the specification: the models present, each score
  times the model's weight, over the sum of the weights of the models present. A class a
  model does not score adds nothing.
\<close>

definition weighted_mean :: "(string \<times> prediction) list \<Rightarrow> string \<Rightarrow> real" where
  "weighted_mean predictions c =
     (\<Sum>(m, p) \<leftarrow> predictions. dict_get (scores p) c 0 * dict_get weights m 0.1)
       / (\<Sum>(m, p) \<leftarrow> predictions. dict_get weights m 0.1)"

definition classes :: "string list" where
  "classes = [''positive'', ''negative'', ''neutral'']"

text \<open>A scores dictionary over the three classes: no other key, no key twice.\<close>

definition class_scores :: "(string \<times> real) list \<Rightarrow> bool" where
  "class_scores d = (distinct (map fst d) \<and> set (map fst d) \<subseteq> set classes)"

definition score_sum :: "(string \<times> real) list \<Rightarrow> real" where
  "score_sum d = dict_get d ''positive'' 0 + dict_get d ''negative'' 0 + dict_get d ''neutral'' 0"

subsection \<open>\<^verbatim>\<open>SentimentAnalyzer.analyze\<close>\<close>

text \<open>
  \<^verbatim>\<open>round(x, 3)\<close> on exact reals: to the nearest multiple of 0.001, a tie to the even one.
\<close>

definition round3 :: "real \<Rightarrow> real" where
  "round3 x =
     (let y = x * 1000; f = \<lfloor>y\<rfloor>; d = y - of_int f in
      (if d < 1 / 2 then of_int f
       else if d > 1 / 2 then of_int f + 1
       else if even f then of_int f else of_int f + 1) / 1000)"

datatype details =
    Message string
  | ModelDetails (model_predictions: "(string \<times> prediction) list") (text_length: nat)
      (processed_length: nat) (models_used: "string list")

record analysis = prediction +
  details :: details

definition too_short :: analysis where
  "too_short =
     \<lparr>sentiment = ''neutral'', confidence = 0.5,
      scores = [(''positive'', 0.33), (''negative'', 0.33), (''neutral'', 0.34)],
      details = Message ''Text too short for analysis''\<rparr>"

definition analyze :: "analyzer \<Rightarrow> string \<Rightarrow> py_error + analysis" where
  "analyze a text =
     (if text = [] \<or> length (strip text) < 10 then Inr too_short
      else
        (let cleaned_text = preprocess_text text;
             predictions = get_ensemble_predictions a cleaned_text in
         case ensemble_combine predictions of
           Inl e \<Rightarrow> Inl e
         | Inr (final_sentiment, conf, combined) \<Rightarrow>
             Inr \<lparr>sentiment = final_sentiment, confidence = round3 conf,
                  scores = [(''positive'', round3 (dict_get combined ''positive'' 0)),
                            (''negative'', round3 (dict_get combined ''negative'' 0)),
                            (''neutral'', round3 (dict_get combined ''neutral'' 0))],
                  details = ModelDetails predictions (length text) (length cleaned_text)
                              (map fst predictions)\<rparr>))"

text \<open>
  An analyzer as \<^verbatim>\<open>__init__\<close> builds it, whose two libraries answer as they do on a
  text without a single word: VADER with all proportions and the compound at 0, TextBlob
  with polarity 0.
\<close>

definition wordless_analyzer :: analyzer where
  "wordless_analyzer =
     \<lparr>models = [''vader'', ''textblob''],
      roberta = (\<lambda>text. Inl AdapterError),
      finbert = (\<lambda>text. Inl AdapterError),
      polarity_scores = (\<lambda>text. Inr \<lparr>neg = 0, neu = 0, pos = 0, compound = 0\<rparr>),
      textblob_polarity = (\<lambda>text. Inr 0)\<rparr>"

subsection \<open>The SQLite store of \<^verbatim>\<open>DataManager\<close>\<close>

text \<open>
  The two tables hold rows in \<^verbatim>\<open>id\<close> order. \<open>results_seq\<close> and \<open>summary_seq\<close> are the
  \<^verbatim>\<open>AUTOINCREMENT\<close> counters. Timestamps and dates are the texts SQLite stores and
  compares byte by byte: \<^verbatim>\<open>YYYY-MM-DD HH:MM:SS\<close> and \<^verbatim>\<open>YYYY-MM-DD\<close>.
\<close>

record result_row =
  r_id :: nat
  r_keywords :: string
  r_title :: string
  r_content :: string
  r_description :: string
  r_url :: string
  r_source :: string
  r_author :: string
  r_published_at :: string
  r_sentiment :: string
  r_confidence :: real
  r_positive_score :: real
  r_negative_score :: real
  r_neutral_score :: real
  r_model_details :: string
  r_created_at :: string

record summary_row =
  s_id :: nat
  s_keywords :: string
  s_date :: string
  s_total_articles :: nat
  s_positive_count :: nat
  s_negative_count :: nat
  s_neutral_count :: nat
  s_avg_confidence :: real
  s_created_at :: string

record database =
  analysis_results :: "result_row list"
  analysis_summary :: "summary_row list"
  results_seq :: nat
  summary_seq :: nat

text \<open>
  The clock, outside the repository: \<open>today\<close> is \<^verbatim>\<open>datetime.now().strftime('%Y-%m-%d')\<close>,
  \<open>days_ago n\<close> is \<^verbatim>\<open>(datetime.now() - timedelta(days=n)).strftime('%Y-%m-%d')\<close> and
  \<open>current_timestamp\<close> is SQLite's \<^verbatim>\<open>CURRENT_TIMESTAMP\<close>.
\<close>

record clock =
  today :: string
  days_ago :: "int \<Rightarrow> string"
  current_timestamp :: string

text \<open>
  A connection of Python's \<^verbatim>\<open>sqlite3\<close> module in its default transaction mode: the first
  \<^verbatim>\<open>INSERT\<close>, \<^verbatim>\<open>REPLACE\<close> or \<^verbatim>\<open>DELETE\<close> opens a transaction, \<^verbatim>\<open>commit\<close> makes the pending
  state durable, \<^verbatim>\<open>rollback\<close> discards it, and SQLite refuses \<^verbatim>\<open>VACUUM\<close> while a
  transaction is open (\<^verbatim>\<open>OperationalError: cannot VACUUM from within a transaction\<close>).
  Leaving \<^verbatim>\<open>with sqlite3.connect(...) as conn\<close> commits when the body ended normally and
  rolls back when it raised.
\<close>

record connection =
  committed :: database
  pending :: database
  in_transaction :: bool

definition connect :: "database \<Rightarrow> connection" where
  "connect db = \<lparr>committed = db, pending = db, in_transaction = False\<rparr>"

definition execute_write :: "(database \<Rightarrow> database) \<Rightarrow> connection \<Rightarrow> connection" where
  "execute_write statement conn = conn\<lparr>pending := statement (pending conn), in_transaction := True\<rparr>"

definition execute_vacuum :: "connection \<Rightarrow> py_error + connection" where
  "execute_vacuum conn = (if in_transaction conn then Inl OperationalError else Inr conn)"

definition commit :: "connection \<Rightarrow> connection" where
  "commit conn = conn\<lparr>committed := pending conn, in_transaction := False\<rparr>"

definition rollback :: "connection \<Rightarrow> connection" where
  "rollback conn = conn\<lparr>pending := committed conn, in_transaction := False\<rparr>"

text \<open>
  An analysed article: the dictionary of the fetch layer updated with the result of
  \<^verbatim>\<open>analyze\<close>. A field is \<open>None\<close> when the key is absent; \<open>a_details\<close> is the JSON text
  of the \<^verbatim>\<open>details\<close> entry.
\<close>

record article =
  a_title :: "string option"
  a_content :: "string option"
  a_description :: "string option"
  a_url :: "string option"
  a_source :: "string option"
  a_author :: "string option"
  a_published_at :: "string option"
  a_sentiment :: "string option"
  a_confidence :: "real option"
  a_scores :: "(string \<times> real) list option"
  a_details :: "string option"

text \<open>\<^verbatim>\<open>article.get(key, default)\<close>\<close>

definition get_or :: "'a option \<Rightarrow> 'a \<Rightarrow> 'a" where
  "get_or field dflt = (case field of Some v \<Rightarrow> v | None \<Rightarrow> dflt)"

text \<open>\<^verbatim>\<open>INSERT INTO analysis_results (...) VALUES (...)\<close>\<close>

definition insert_result :: "clock \<Rightarrow> string \<Rightarrow> article \<Rightarrow> database \<Rightarrow> database" where
  "insert_result clk keywords a db =
     db\<lparr>analysis_results := analysis_results db @
           [\<lparr>r_id = results_seq db + 1,
             r_keywords = keywords,
             r_title = get_or (a_title a) [],
             r_content = get_or (a_content a) [],
             r_description = get_or (a_description a) [],
             r_url = get_or (a_url a) [],
             r_source = get_or (a_source a) [],
             r_author = get_or (a_author a) [],
             r_published_at = get_or (a_published_at a) [],
             r_sentiment = get_or (a_sentiment a) [],
             r_confidence = get_or (a_confidence a) 0,
             r_positive_score = dict_get (get_or (a_scores a) []) ''positive'' 0,
             r_negative_score = dict_get (get_or (a_scores a) []) ''negative'' 0,
             r_neutral_score = dict_get (get_or (a_scores a) []) ''neutral'' 0,
             r_model_details = get_or (a_details a) ''{}'',
             r_created_at = current_timestamp clk\<rparr>],
        results_seq := results_seq db + 1\<rparr>"

text \<open>
  \<^verbatim>\<open>INSERT OR REPLACE INTO analysis_summary (...) VALUES (...)\<close>: a row that conflicts on
  \<^verbatim>\<open>UNIQUE(keywords, date)\<close> is deleted, then the new row is inserted under a fresh id.
\<close>

definition insert_or_replace_summary ::
    "clock \<Rightarrow> string \<Rightarrow> string \<Rightarrow> nat \<Rightarrow> nat \<Rightarrow> nat \<Rightarrow> nat \<Rightarrow> real \<Rightarrow> database \<Rightarrow> database" where
  "insert_or_replace_summary clk keywords date total_articles positive_count negative_count
       neutral_count avg_confidence db =
     db\<lparr>analysis_summary :=
           filter (\<lambda>r. \<not> (s_keywords r = keywords \<and> s_date r = date)) (analysis_summary db) @
           [\<lparr>s_id = summary_seq db + 1,
             s_keywords = keywords,
             s_date = date,
             s_total_articles = total_articles,
             s_positive_count = positive_count,
             s_negative_count = negative_count,
             s_neutral_count = neutral_count,
             s_avg_confidence = avg_confidence,
             s_created_at = current_timestamp clk\<rparr>],
        summary_seq := summary_seq db + 1\<rparr>"

subsection \<open>\<^verbatim>\<open>DataManager._update_summary\<close> and \<^verbatim>\<open>DataManager.store_analysis\<close>\<close>

definition update_summary :: "clock \<Rightarrow> string \<Rightarrow> article list \<Rightarrow> connection \<Rightarrow> connection" where
  "update_summary clk keywords articles conn =
     (let total_articles = length articles;
          positive_count = length (filter (\<lambda>a. a_sentiment a = Some ''positive'') articles);
          negative_count = length (filter (\<lambda>a. a_sentiment a = Some ''negative'') articles);
          neutral_count = length (filter (\<lambda>a. a_sentiment a = Some ''neutral'') articles);
          avg_confidence = (if articles \<noteq> []
                            then sum_list (map (\<lambda>a. get_or (a_confidence a) 0) articles)
                                   / real (length articles)
                            else 0)
      in execute_write
           (insert_or_replace_summary clk keywords (today clk) total_articles positive_count
              negative_count neutral_count avg_confidence) conn)"

text \<open>
  With well-typed articles no statement of \<^verbatim>\<open>store_analysis\<close> raises, so the
  \<^verbatim>\<open>except\<close> branch that returns \<^verbatim>\<open>False\<close> is not reached; failures of the storage medium
  are outside the model. The result is the returned flag and the database after the
  \<^verbatim>\<open>with\<close> block.
\<close>

definition store_analysis :: "clock \<Rightarrow> string \<Rightarrow> article list \<Rightarrow> database \<Rightarrow> bool \<times> database" where
  "store_analysis clk keywords articles db =
     (let conn = connect db;
          conn = fold (\<lambda>article. execute_write (insert_result clk keywords article)) articles conn;
          conn = update_summary clk keywords articles conn;
          conn = commit conn
      in (True, committed (commit conn)))"

subsection \<open>\<^verbatim>\<open>DataManager.cleanup_old_data\<close>\<close>

text \<open>
  SQLite's \<^verbatim>\<open>date(created_at)\<close> on a timestamp written by \<^verbatim>\<open>CURRENT_TIMESTAMP\<close>: its first
  ten characters.
\<close>

definition sqlite_date :: "string \<Rightarrow> string" where
  "sqlite_date timestamp = take 10 timestamp"

definition delete_old_results :: "string \<Rightarrow> database \<Rightarrow> database" where
  "delete_old_results cutoff_date db =
     db\<lparr>analysis_results :=
           filter (\<lambda>r. \<not> sqlite_date (r_created_at r) < cutoff_date) (analysis_results db)\<rparr>"

definition delete_old_summary :: "string \<Rightarrow> database \<Rightarrow> database" where
  "delete_old_summary cutoff_date db =
     db\<lparr>analysis_summary := filter (\<lambda>r. \<not> s_date r < cutoff_date) (analysis_summary db)\<rparr>"

text \<open>
  The result is the exception caught and logged by the \<^verbatim>\<open>except\<close> branch, if any, and the
  database after the \<^verbatim>\<open>with\<close> block.
\<close>

definition cleanup_old_data :: "clock \<Rightarrow> int \<Rightarrow> database \<Rightarrow> py_error option \<times> database" where
  "cleanup_old_data clk days db =
     (let cutoff_date = days_ago clk days;
          conn = connect db;
          conn = execute_write (delete_old_results cutoff_date) conn;
          conn = execute_write (delete_old_summary cutoff_date) conn
      in case execute_vacuum conn of
           Inl e \<Rightarrow> (Some e, committed (rollback conn))
         | Inr conn \<Rightarrow> (None, committed (commit (commit conn))))"

text \<open>A clock on 2026-11-04 and a database with one verdict and one summary of the year 2000.\<close>

definition clock_2026 :: clock where
  "clock_2026 =
     \<lparr>today = ''2026-11-04'',
      days_ago = (\<lambda>n. if n = 30 then ''2026-10-05'' else ''2026-11-04''),
      current_timestamp = ''2026-11-04 09:00:00''\<rparr>"

definition old_result :: result_row where
  "old_result =
     \<lparr>r_id = 1, r_keywords = ''economy'', r_title = ''Markets rally'',
      r_content = ''Markets rallied on Monday.'', r_description = [], r_url = [],
      r_source = ''wire'', r_author = [], r_published_at = ''2000-01-01'',
      r_sentiment = ''positive'', r_confidence = 0.8, r_positive_score = 0.8,
      r_negative_score = 0.1, r_neutral_score = 0.1, r_model_details = ''{}'',
      r_created_at = ''2000-01-01 12:00:00''\<rparr>"

definition old_summary :: summary_row where
  "old_summary =
     \<lparr>s_id = 1, s_keywords = ''economy'', s_date = ''2000-01-01'', s_total_articles = 1,
      s_positive_count = 1, s_negative_count = 0, s_neutral_count = 0, s_avg_confidence = 0.8,
      s_created_at = ''2000-01-01 12:00:00''\<rparr>"

definition old_database :: database where
  "old_database =
     \<lparr>analysis_results = [old_result], analysis_summary = [old_summary],
      results_seq = 1, summary_seq = 1\<rparr>"

text \<open>The same database later that day, after a first batch of five articles on the topic.\<close>

definition todays_summary :: summary_row where
  "todays_summary =
     \<lparr>s_id = 2, s_keywords = ''economy'', s_date = ''2026-11-04'', s_total_articles = 5,
      s_positive_count = 3, s_negative_count = 1, s_neutral_count = 1, s_avg_confidence = 0.9,
      s_created_at = ''2026-11-04 08:00:00''\<rparr>"

definition busy_database :: database where
  "busy_database =
     \<lparr>analysis_results = [old_result], analysis_summary = [old_summary, todays_summary],
      results_seq = 1, summary_seq = 2\<rparr>"

definition sample_article :: article where
  "sample_article =
     \<lparr>a_title = Some ''Stocks fall'', a_content = Some ''Stocks fell sharply on Tuesday.'',
      a_description = None, a_url = None, a_source = Some ''wire'', a_author = None,
      a_published_at = Some ''2026-11-03'', a_sentiment = Some ''negative'',
      a_confidence = Some 0.7,
      a_scores = Some [(''positive'', 0.1), (''negative'', 0.7), (''neutral'', 0.2)],
      a_details = None\<rparr>"

section \<open>Properties\<close>

lemma dict_get_Cons:
  "dict_get ((k, v) # d) c dflt = (if c = k then v else dict_get d c dflt)"
  by (simp add: dict_get_def)

lemma dict_get_absent: "c \<notin> fst ` set d \<Longrightarrow> dict_get d c dflt = dflt"
  by (simp add: dict_get_def map_of_eq_None_iff[THEN iffD2])

lemma add_scores_keys:
  "add_scores w sc combined = Inr combined' \<Longrightarrow> map fst combined' = map fst combined"
proof (induction sc arbitrary: combined)
  case Nil
  then show ?case by simp
next
  case (Cons a sc)
  obtain s x where a: "a = (s, x)" by (cases a)
  from Cons.prems a obtain v where v: "map_of combined s = Some v"
    and rest: "add_scores w sc (AList.update s (v + x * w) combined) = Inr combined'"
    by (auto split: option.splits)
  from v have "s \<in> fst ` set combined" by (auto dest: map_of_SomeD intro: rev_image_eqI)
  then have "map fst (AList.update s (v + x * w) combined) = map fst combined"
    by (simp add: update_keys)
  with Cons.IH[OF rest] show ?case by simp
qed

lemma add_scores_values:
  assumes "distinct (map fst sc)" and "set (map fst sc) \<subseteq> set (map fst combined)"
  shows "\<exists>combined'. add_scores w sc combined = Inr combined'
           \<and> (\<forall>c. map_of combined' c = map_option (\<lambda>v. v + dict_get sc c 0 * w) (map_of combined c))"
  using assms
proof (induction sc arbitrary: combined)
  case Nil
  then show ?case by (simp add: dict_get_def option.map_ident)
next
  case (Cons a sc)
  obtain s x where a: "a = (s, x)" by (cases a)
  from Cons.prems a have "s \<in> fst ` set combined" by auto
  then obtain v where v: "map_of combined s = Some v"
    by (metis map_of_eq_None_iff not_Some_eq)
  let ?c2 = "AList.update s (v + x * w) combined"
  have keys: "map fst ?c2 = map fst combined"
    using \<open>s \<in> fst ` set combined\<close> by (simp add: update_keys)
  from Cons.prems a have d: "distinct (map fst sc)" and sub: "set (map fst sc) \<subseteq> set (map fst ?c2)"
    and fresh: "s \<notin> fst ` set sc"
    using keys by auto
  from Cons.IH[OF d sub] obtain combined' where
    r: "add_scores w sc ?c2 = Inr combined'" and
    m: "\<And>c. map_of combined' c = map_option (\<lambda>v. v + dict_get sc c 0 * w) (map_of ?c2 c)"
    by blast
  have "add_scores w (a # sc) combined = Inr combined'"
    using a v r by simp
  moreover have "map_of combined' c = map_option (\<lambda>v. v + dict_get (a # sc) c 0 * w) (map_of combined c)" for c
  proof (cases "c = s")
    case True
    then show ?thesis
      using m[of c] v a fresh by (simp add: update_conv' dict_get_Cons dict_get_absent)
  next
    case False
    then show ?thesis
      using m[of c] a by (simp add: update_conv' dict_get_Cons)
  qed
  ultimately show ?case by blast
qed

lemma combine_loop_keys:
  "combine_loop predictions combined tw = Inr (combined', tw') \<Longrightarrow> map fst combined' = map fst combined"
proof (induction predictions arbitrary: combined tw)
  case Nil
  then show ?case by simp
next
  case (Cons a predictions)
  obtain m p where a: "a = (m, p)" by (cases a)
  from Cons.prems a obtain c2 where
    c2: "add_scores (dict_get weights m 0.1) (scores p) combined = Inr c2" and
    rest: "combine_loop predictions c2 (tw + dict_get weights m 0.1) = Inr (combined', tw')"
    by (auto simp: Let_def split: sum.splits)
  from Cons.IH[OF rest] add_scores_keys[OF c2] show ?case by simp
qed

lemma combine_loop_values:
  assumes "\<forall>(m, p) \<in> set predictions. distinct (map fst (scores p))
             \<and> set (map fst (scores p)) \<subseteq> set (map fst combined)"
  shows "\<exists>combined'. combine_loop predictions combined tw
             = Inr (combined', tw + (\<Sum>(m, p) \<leftarrow> predictions. dict_get weights m 0.1))
           \<and> (\<forall>c. map_of combined' c
                 = map_option (\<lambda>v. v + (\<Sum>(m, p) \<leftarrow> predictions.
                                          dict_get (scores p) c 0 * dict_get weights m 0.1))
                     (map_of combined c))"
  using assms
proof (induction predictions arbitrary: combined tw)
  case Nil
  then show ?case by (simp add: option.map_ident)
next
  case (Cons a predictions)
  obtain m p where a: "a = (m, p)" by (cases a)
  let ?w = "dict_get weights m 0.1"
  from Cons.prems a have d: "distinct (map fst (scores p))"
    and sub: "set (map fst (scores p)) \<subseteq> set (map fst combined)" by auto
  from add_scores_values[OF d sub, of ?w] obtain c2 where
    c2: "add_scores ?w (scores p) combined = Inr c2" and
    m2: "\<And>c. map_of c2 c = map_option (\<lambda>v. v + dict_get (scores p) c 0 * ?w) (map_of combined c)"
    by blast
  have k2: "map fst c2 = map fst combined" by (rule add_scores_keys[OF c2])
  have "\<forall>(m, p) \<in> set predictions. distinct (map fst (scores p))
             \<and> set (map fst (scores p)) \<subseteq> set (map fst c2)"
    using Cons.prems k2 by auto
  from Cons.IH[OF this, of "tw + ?w"] obtain combined' where
    r: "combine_loop predictions c2 (tw + ?w)
          = Inr (combined', tw + ?w + (\<Sum>(m, p) \<leftarrow> predictions. dict_get weights m 0.1))" and
    m3: "\<And>c. map_of combined' c
                 = map_option (\<lambda>v. v + (\<Sum>(m, p) \<leftarrow> predictions.
                                          dict_get (scores p) c 0 * dict_get weights m 0.1))
                     (map_of c2 c)"
    by blast
  have "combine_loop (a # predictions) combined tw
          = Inr (combined', tw + (\<Sum>(m, p) \<leftarrow> a # predictions. dict_get weights m 0.1))"
    using a c2 r by (simp add: add.assoc)
  moreover have "map_of combined' c
                 = map_option (\<lambda>v. v + (\<Sum>(m, p) \<leftarrow> a # predictions.
                                          dict_get (scores p) c 0 * dict_get weights m 0.1))
                     (map_of combined c)" for c
    using m3[of c] m2[of c] a by (cases "map_of combined c") (simp_all add: add.assoc)
  ultimately show ?case by blast
qed

lemma weight_positive: "0 < dict_get weights m 0.1"
  by (simp add: dict_get_def weights_def)

lemma total_weight_positive:
  "predictions \<noteq> [] \<Longrightarrow> 0 < (\<Sum>(m, p) \<leftarrow> predictions. dict_get weights m 0.1)"
proof (induction predictions)
  case Nil
  then show ?case by simp
next
  case (Cons a predictions)
  have "0 \<le> (\<Sum>b \<leftarrow> predictions. dict_get weights (fst b) 0.1)"
    by (rule sum_list_nonneg) (auto simp: weight_positive less_imp_le)
  then show ?case
    using weight_positive[of "fst a"] by (simp add: case_prod_beta add_pos_nonneg)
qed

lemma three_keys:
  assumes "map fst d = [k1, k2, k3]" and "distinct [k1, k2, k3]"
  shows "d = [(k1, the (map_of d k1)), (k2, the (map_of d k2)), (k3, the (map_of d k3))]"
proof -
  from assms(1) obtain v1 v2 v3 where "d = [(k1, v1), (k2, v2), (k3, v3)]"
    by (auto simp: map_eq_Cons_conv)
  with assms(2) show ?thesis by auto
qed

lemma combined_scores_shape:
  assumes "combined_scores predictions = Inr combined"
  shows "\<exists>p n u. combined = [(''positive'', p), (''negative'', n), (''neutral'', u)]"
proof -
  from assms obtain c tw where
    l: "combine_loop predictions [(''positive'', 0), (''negative'', 0), (''neutral'', 0)] 0 = Inr (c, tw)"
    and c: "combined = (if tw > 0 then map (\<lambda>(s, v). (s, v / tw)) c else c)"
    by (auto simp: combined_scores_def split: sum.splits)
  from combine_loop_keys[OF l] have "map fst c = [''positive'', ''negative'', ''neutral'']" by simp
  then obtain p n u where "c = [(''positive'', p), (''negative'', n), (''neutral'', u)]"
    by (auto simp: map_eq_Cons_conv)
  with c show ?thesis by auto
qed

lemma combined_scores_weighted_mean_aux:
  assumes ne: "predictions \<noteq> []"
    and ok: "\<forall>(m, p) \<in> set predictions. class_scores (scores p)"
  shows "combined_scores predictions =
           Inr [(''positive'', weighted_mean predictions ''positive''),
                (''negative'', weighted_mean predictions ''negative''),
                (''neutral'', weighted_mean predictions ''neutral'')]"
proof -
  let ?init = "[(''positive'', 0), (''negative'', 0), (''neutral'', 0)] :: (string \<times> real) list"
  let ?W = "\<Sum>(m, p) \<leftarrow> predictions. dict_get weights m 0.1"
  let ?S = "\<lambda>c. \<Sum>(m, p) \<leftarrow> predictions. dict_get (scores p) c 0 * dict_get weights m 0.1"
  have "\<forall>(m, p) \<in> set predictions. distinct (map fst (scores p))
             \<and> set (map fst (scores p)) \<subseteq> set (map fst ?init)"
    using ok by (auto simp: class_scores_def classes_def)
  from combine_loop_values[OF this, of 0] obtain c where
    l: "combine_loop predictions ?init 0 = Inr (c, ?W)" and
    m: "\<And>k. map_of c k = map_option (\<lambda>v. v + ?S k) (map_of ?init k)"
    by auto
  have keys: "map fst c = [''positive'', ''negative'', ''neutral'']"
    using combine_loop_keys[OF l] by simp
  have "c = [(''positive'', the (map_of c ''positive'')), (''negative'', the (map_of c ''negative'')),
             (''neutral'', the (map_of c ''neutral''))]"
    by (rule three_keys[OF keys]) simp
  moreover have "map_of c ''positive'' = Some (?S ''positive'')"
    "map_of c ''negative'' = Some (?S ''negative'')" "map_of c ''neutral'' = Some (?S ''neutral'')"
    by (simp_all add: m)
  ultimately have c: "c = [(''positive'', ?S ''positive''), (''negative'', ?S ''negative''),
             (''neutral'', ?S ''neutral'')]" by simp
  have W: "0 < ?W" by (rule total_weight_positive[OF ne])
  have "combined_scores predictions = Inr (map (\<lambda>(s, v). (s, v / ?W)) c)"
    unfolding combined_scores_def using l W by simp
  also have "map (\<lambda>(s, v). (s, v / ?W)) c =
      [(''positive'', ?S ''positive'' / ?W), (''negative'', ?S ''negative'' / ?W),
       (''neutral'', ?S ''neutral'' / ?W)]"
    by (subst c) simp
  finally show ?thesis by (simp add: weighted_mean_def)
qed

lemma max_by_value_three:
  "max_by_value [(''positive'', p), (''negative'', n), (''neutral'', u)] =
     Inr (if n \<le> p \<and> u \<le> p then (''positive'', p)
          else if u \<le> n then (''negative'', n) else (''neutral'', u))"
  by (auto simp: max_by_value_def)

lemma weighted_mean_sum:
  "weighted_mean P ''positive'' + weighted_mean P ''negative'' + weighted_mean P ''neutral''
     = (\<Sum>(m, p) \<leftarrow> P. score_sum (scores p) * dict_get weights m 0.1)
         / (\<Sum>(m, p) \<leftarrow> P. dict_get weights m 0.1)"
proof -
  have "(\<Sum>x \<leftarrow> P. score_sum (scores (snd x)) * dict_get weights (fst x) 0.1)
      = (\<Sum>x \<leftarrow> P. dict_get (scores (snd x)) ''positive'' 0 * dict_get weights (fst x) 0.1)
      + (\<Sum>x \<leftarrow> P. dict_get (scores (snd x)) ''negative'' 0 * dict_get weights (fst x) 0.1)
      + (\<Sum>x \<leftarrow> P. dict_get (scores (snd x)) ''neutral'' 0 * dict_get weights (fst x) 0.1)"
    by (simp add: score_sum_def distrib_right sum_list_addf)
  then show ?thesis
    by (simp add: weighted_mean_def split_def add_divide_distrib)
qed

lemma weighted_sum_bounds:
  assumes "\<forall>(m, p) \<in> set P. lo \<le> score_sum (scores p) \<and> score_sum (scores p) \<le> hi"
  shows "lo * (\<Sum>(m, p) \<leftarrow> P. dict_get weights m 0.1)
           \<le> (\<Sum>(m, p) \<leftarrow> P. score_sum (scores p) * dict_get weights m 0.1)
       \<and> (\<Sum>(m, p) \<leftarrow> P. score_sum (scores p) * dict_get weights m 0.1)
           \<le> hi * (\<Sum>(m, p) \<leftarrow> P. dict_get weights m 0.1)"
  using assms
proof (induction P)
  case Nil
  then show ?case by simp
next
  case (Cons a P)
  obtain m p where a: "a = (m, p)" by (cases a)
  have w: "0 < dict_get weights m 0.1" by (rule weight_positive)
  from Cons.prems a have b: "lo \<le> score_sum (scores p)" "score_sum (scores p) \<le> hi" by auto
  have "lo * dict_get weights m 0.1 \<le> score_sum (scores p) * dict_get weights m 0.1"
    "score_sum (scores p) * dict_get weights m 0.1 \<le> hi * dict_get weights m 0.1"
    using b w by simp_all
  moreover have "\<forall>(m, p) \<in> set P. lo \<le> score_sum (scores p) \<and> score_sum (scores p) \<le> hi"
    using Cons.prems by auto
  note Cons.IH[OF this]
  ultimately show ?case using a by (simp add: distrib_left)
qed

text \<open>
  Claim C1. For a non-empty predictions mapping whose combination succeeds, if the largest of
  the three combined class scores is below \<open>CONFIDENCE_THRESHOLD\<close> (0.6), the combiner
  returns the sentiment \<open>neutral\<close> with confidence \<open>max (combined neutral score) 0.5\<close> and
  the combined scores, whichever class the raw argmax picked.
\<close>

theorem low_confidence_forces_neutral:
  assumes "predictions \<noteq> []"
    and "combined_scores predictions = Inr combined"
    and "Max (snd ` set combined) < CONFIDENCE_THRESHOLD"
  shows "\<exists>u. map_of combined ''neutral'' = Some u
           \<and> ensemble_combine predictions = Inr (''neutral'', max u 0.5, combined)"
proof -
  from combined_scores_shape[OF assms(2)] obtain p n u where
    c: "combined = [(''positive'', p), (''negative'', n), (''neutral'', u)]" by blast
  from assms(3) c have "p < CONFIDENCE_THRESHOLD" "n < CONFIDENCE_THRESHOLD" "u < CONFIDENCE_THRESHOLD"
    by simp_all
  then have "ensemble_combine predictions = Inr (''neutral'', max u 0.5, combined)"
    using assms(1,2) c by (simp add: ensemble_combine_def max_by_value_three)
  with c show ?thesis by simp
qed

theorem low_confidence_forces_neutral_witness:
  "ensemble_combine
     [(''vader'', \<lparr>sentiment = ''positive'', confidence = 0.55,
                  scores = [(''positive'', 0.55), (''neutral'', 0.25), (''negative'', 0.2)]\<rparr>)]
   = Inr (''neutral'', 0.5, [(''positive'', 0.55), (''negative'', 0.2), (''neutral'', 0.25)])"
proof -
  let ?P = "[(''vader'', \<lparr>sentiment = ''positive'', confidence = 0.55,
                  scores = [(''positive'', 0.55), (''neutral'', 0.25), (''negative'', 0.2)]\<rparr>)]"
  let ?C = "[(''positive'', 0.55), (''negative'', 0.2), (''neutral'', 0.25)] :: (string \<times> real) list"
  have 1: "?P \<noteq> []" by simp
  have 2: "combined_scores ?P = Inr ?C"
    by (simp add: combined_scores_def dict_get_def weights_def)
  have 3: "Max (snd ` set ?C) < CONFIDENCE_THRESHOLD"
    by (simp add: CONFIDENCE_THRESHOLD_def)
  from low_confidence_forces_neutral[OF 1 2 3] obtain u where
    "map_of ?C ''neutral'' = Some u" and r: "ensemble_combine ?P = Inr (''neutral'', max u 0.5, ?C)"
    by blast
  then have "u = 0.25" by simp
  with r show ?thesis by simp
qed

text \<open>
  Claim C3. For a non-empty predictions mapping whose score keys are among positive, negative
  and neutral, every combined class score is the sum over the models present of the model's
  score for the class times the model's weight, divided by the sum of the weights of the models
  present; a model name outside the weight table counts with the default weight 0.1 and is
  not rejected.
\<close>

theorem combined_scores_weighted_mean:
  assumes "predictions \<noteq> []"
    and "\<forall>(m, p) \<in> set predictions. class_scores (scores p)"
  shows "combined_scores predictions =
           Inr [(''positive'', weighted_mean predictions ''positive''),
                (''negative'', weighted_mean predictions ''negative''),
                (''neutral'', weighted_mean predictions ''neutral'')]
         \<and> (\<forall>(m, p) \<in> set predictions. m \<notin> set (map fst weights) \<longrightarrow> dict_get weights m 0.1 = 0.1)"
proof
  show "combined_scores predictions =
           Inr [(''positive'', weighted_mean predictions ''positive''),
                (''negative'', weighted_mean predictions ''negative''),
                (''neutral'', weighted_mean predictions ''neutral'')]"
    by (rule combined_scores_weighted_mean_aux[OF assms])
  show "\<forall>(m, p) \<in> set predictions. m \<notin> set (map fst weights) \<longrightarrow> dict_get weights m 0.1 = 0.1"
    by (auto simp: dict_get_absent)
qed

theorem combined_scores_weighted_mean_witness:
  "combined_scores
     [(''vader'', \<lparr>sentiment = ''positive'', confidence = 0.6,
                  scores = [(''positive'', 0.6), (''neutral'', 0.3), (''negative'', 0.1)]\<rparr>),
      (''custom'', \<lparr>sentiment = ''negative'', confidence = 0.4,
                   scores = [(''positive'', 0.3), (''neutral'', 0.3), (''negative'', 0.4)]\<rparr>)]
   = Inr [(''positive'', 0.5), (''negative'', 0.2), (''neutral'', 0.3)]
   \<and> dict_get weights ''custom'' 0.1 = 0.1"
proof -
  let ?P = "[(''vader'', \<lparr>sentiment = ''positive'', confidence = 0.6,
                  scores = [(''positive'', 0.6), (''neutral'', 0.3), (''negative'', 0.1)]\<rparr>),
      (''custom'', \<lparr>sentiment = ''negative'', confidence = 0.4,
                   scores = [(''positive'', 0.3), (''neutral'', 0.3), (''negative'', 0.4)]\<rparr>)]"
  have 1: "?P \<noteq> []" by simp
  have 2: "\<forall>(m, p) \<in> set ?P. class_scores (scores p)"
    by (simp add: class_scores_def classes_def)
  from combined_scores_weighted_mean[OF 1 2] show ?thesis
    by (simp add: weighted_mean_def dict_get_def weights_def)
qed

text \<open>
  Claim C9. The winning sentiment, computed by \<^verbatim>\<open>max(combined_scores, key=combined_scores.get)\<close>,
  is the first class in the order positive, negative, neutral that reaches the maximal
  combined score: on a tie positive wins over negative and negative over neutral. The verdict
  returned is a function of the predictions alone: the winner with its score, or, below the
  threshold, the neutral override.
\<close>

theorem tie_break_first_in_order:
  assumes "predictions \<noteq> []"
    and "combined_scores predictions = Inr combined"
  shows "\<exists>p n u. combined = [(''positive'', p), (''negative'', n), (''neutral'', u)]
           \<and> max_by_value combined =
                 Inr (if n \<le> p \<and> u \<le> p then (''positive'', p)
                      else if u \<le> n then (''negative'', n) else (''neutral'', u))
           \<and> ensemble_combine predictions =
                 (case max_by_value combined of
                    Inl e \<Rightarrow> Inl e
                  | Inr (winner, conf) \<Rightarrow>
                      if conf < CONFIDENCE_THRESHOLD then Inr (''neutral'', max u 0.5, combined)
                      else Inr (winner, conf, combined))"
proof -
  from combined_scores_shape[OF assms(2)] obtain p n u where
    c: "combined = [(''positive'', p), (''negative'', n), (''neutral'', u)]" by blast
  have "ensemble_combine predictions =
                 (case max_by_value combined of
                    Inl e \<Rightarrow> Inl e
                  | Inr (winner, conf) \<Rightarrow>
                      if conf < CONFIDENCE_THRESHOLD then Inr (''neutral'', max u 0.5, combined)
                      else Inr (winner, conf, combined))"
    using assms c by (simp add: ensemble_combine_def split: sum.splits)
  with c show ?thesis by (simp only: max_by_value_three) blast
qed

theorem tie_break_first_in_order_witness:
  "ensemble_combine
     [(''finbert'', \<lparr>sentiment = ''positive'', confidence = 0.7,
                    scores = [(''negative'', 0.7), (''positive'', 0.7), (''neutral'', 0.1)]\<rparr>)]
   = Inr (''positive'', 0.7, [(''positive'', 0.7), (''negative'', 0.7), (''neutral'', 0.1)])"
proof -
  let ?P = "[(''finbert'', \<lparr>sentiment = ''positive'', confidence = 0.7,
                    scores = [(''negative'', 0.7), (''positive'', 0.7), (''neutral'', 0.1)]\<rparr>)]"
  let ?C = "[(''positive'', 0.7), (''negative'', 0.7), (''neutral'', 0.1)] :: (string \<times> real) list"
  have 1: "?P \<noteq> []" by simp
  have 2: "combined_scores ?P = Inr ?C"
    by (simp add: combined_scores_def dict_get_def weights_def)
  from tie_break_first_in_order[OF 1 2] obtain p n u where
    "?C = [(''positive'', p), (''negative'', n), (''neutral'', u)]" and
    w: "max_by_value ?C = Inr (if n \<le> p \<and> u \<le> p then (''positive'', p)
                      else if u \<le> n then (''negative'', n) else (''neutral'', u))" and
    r: "ensemble_combine ?P =
                 (case max_by_value ?C of
                    Inl e \<Rightarrow> Inl e
                  | Inr (winner, conf) \<Rightarrow>
                      if conf < CONFIDENCE_THRESHOLD then Inr (''neutral'', max u 0.5, ?C)
                      else Inr (winner, conf, ?C))"
    by blast
  then have "p = 0.7" "n = 0.7" "u = 0.1" by simp_all
  with w r show ?thesis by (simp add: CONFIDENCE_THRESHOLD_def)
qed

text \<open>
  Claim C4 fails as stated: on the VADER output of a text without any scored token, where
  \<open>pos\<close>, \<open>neu\<close> and \<open>neg\<close> are all 0, the guard against division by zero makes all three
  normalised scores 0, so their sum is 0 and not within 0.01 of 1.
\<close>

theorem score_sum_not_always_one:
  "\<not> \<bar>score_sum (scores (normalize_vader_output \<lparr>neg = 0, neu = 0, pos = 0, compound = 0\<rparr>)) - 1\<bar> \<le> 0.01"
  by (simp add: normalize_vader_output_def score_sum_def dict_get_def)

lemma near_iff: "\<bar>x - 1\<bar> \<le> e \<longleftrightarrow> 1 - e \<le> x \<and> x \<le> 1 + (e :: real)"
  by linarith

lemma mean_between:
  fixes S W lo hi :: real
  assumes "lo * W \<le> S" and "S \<le> hi * W" and "0 < W"
  shows "lo \<le> S / W \<and> S / W \<le> hi"
  using assms by (simp add: pos_le_divide_eq pos_divide_le_eq)

text \<open>
  Claim C4, amended. The scores of the VADER normaliser sum to within 0.01 of 1 whenever
  \<open>pos + neu + neg\<close> is positive, and to 0 otherwise; the scores of the TextBlob normaliser
  sum to within 0.01 of 1 for every polarity; and the combined scores of a non-empty
  predictions mapping sum to within 0.01 of 1 whenever the three class scores of every model
  present do.
\<close>

theorem score_sums:
  "(if 0 < pos vs + neu vs + neg vs
    then \<bar>score_sum (scores (normalize_vader_output vs)) - 1\<bar> \<le> 0.01
    else score_sum (scores (normalize_vader_output vs)) = 0)
   \<and> \<bar>score_sum (scores (normalize_textblob_output polarity)) - 1\<bar> \<le> 0.01
   \<and> (predictions \<noteq> []
        \<and> (\<forall>(m, p) \<in> set predictions. class_scores (scores p) \<and> \<bar>score_sum (scores p) - 1\<bar> \<le> 0.01)
      \<longrightarrow> (\<exists>combined. combined_scores predictions = Inr combined
                \<and> \<bar>score_sum combined - 1\<bar> \<le> 0.01))"
proof (intro conjI impI)
  have "score_sum (scores (normalize_vader_output vs)) = (if 0 < pos vs + neu vs + neg vs then 1 else 0)"
    by (simp add: normalize_vader_output_def score_sum_def dict_get_def Let_def
        add_divide_distrib[symmetric])
  then show "if 0 < pos vs + neu vs + neg vs
    then \<bar>score_sum (scores (normalize_vader_output vs)) - 1\<bar> \<le> 0.01
    else score_sum (scores (normalize_vader_output vs)) = 0"
    by simp
  have "score_sum (scores (normalize_textblob_output polarity)) = 1"
    by (simp add: normalize_textblob_output_def score_sum_def dict_get_def Let_def)
  then show "\<bar>score_sum (scores (normalize_textblob_output polarity)) - 1\<bar> \<le> 0.01"
    by simp
next
  assume h: "predictions \<noteq> []
        \<and> (\<forall>(m, p) \<in> set predictions. class_scores (scores p) \<and> \<bar>score_sum (scores p) - 1\<bar> \<le> 0.01)"
  let ?W = "\<Sum>(m, p) \<leftarrow> predictions. dict_get weights m 0.1"
  let ?S = "\<Sum>(m, p) \<leftarrow> predictions. score_sum (scores p) * dict_get weights m 0.1"
  let ?C = "[(''positive'', weighted_mean predictions ''positive''),
                (''negative'', weighted_mean predictions ''negative''),
                (''neutral'', weighted_mean predictions ''neutral'')]"
  from h have ne: "predictions \<noteq> []" and ok: "\<forall>(m, p) \<in> set predictions. class_scores (scores p)"
    by auto
  have b: "\<forall>(m, p) \<in> set predictions. 1 - 0.01 \<le> score_sum (scores p) \<and> score_sum (scores p) \<le> 1 + 0.01"
  proof (clarify)
    fix m p assume "(m, p) \<in> set predictions"
    with h have "\<bar>score_sum (scores p) - 1\<bar> \<le> 0.01" by blast
    then show "1 - 0.01 \<le> score_sum (scores p) \<and> score_sum (scores p) \<le> 1 + 0.01"
      by (rule near_iff[THEN iffD1])
  qed
  have c: "combined_scores predictions = Inr ?C"
    by (rule combined_scores_weighted_mean_aux[OF ne ok])
  have W: "0 < ?W" by (rule total_weight_positive[OF ne])
  have s: "score_sum ?C = ?S / ?W"
    using weighted_mean_sum[of predictions] by (simp add: score_sum_def dict_get_def)
  from weighted_sum_bounds[OF b] have "(1 - 0.01) * ?W \<le> ?S" and "?S \<le> (1 + 0.01) * ?W"
    by blast+
  then have "1 - 0.01 \<le> ?S / ?W \<and> ?S / ?W \<le> 1 + 0.01"
    using W by (rule mean_between)
  then have "\<bar>?S / ?W - 1\<bar> \<le> 0.01" by (rule near_iff[THEN iffD2])
  then have "\<bar>score_sum ?C - 1\<bar> \<le> 0.01" by (simp only: s)
  with c show "\<exists>combined. combined_scores predictions = Inr combined \<and> \<bar>score_sum combined - 1\<bar> \<le> 0.01"
    by blast
qed

theorem score_sums_witness:
  "\<exists>combined.
     combined_scores
       [(''vader'', normalize_vader_output \<lparr>neg = 0.1, neu = 0.5, pos = 0.4, compound = 0.6\<rparr>),
        (''textblob'', normalize_textblob_output 0.3)] = Inr combined
     \<and> \<bar>score_sum combined - 1\<bar> \<le> 0.01"
proof -
  let ?P = "[(''vader'', normalize_vader_output \<lparr>neg = 0.1, neu = 0.5, pos = 0.4, compound = 0.6\<rparr>),
        (''textblob'', normalize_textblob_output 0.3)]"
  have "?P \<noteq> [] \<and> (\<forall>(m, p) \<in> set ?P. class_scores (scores p) \<and> \<bar>score_sum (scores p) - 1\<bar> \<le> 0.01)"
    by (simp add: normalize_vader_output_def normalize_textblob_output_def class_scores_def
        classes_def score_sum_def dict_get_def Let_def)
  with score_sums[of "\<lparr>neg = 0.1, neu = 0.5, pos = 0.4, compound = 0.6\<rparr>" "0.3" ?P]
  show ?thesis by blast
qed

text \<open>
  Claim C2 fails as stated: \<^verbatim>\<open>analyze\<close> tests the length of the raw text after
  \<^verbatim>\<open>strip()\<close>, before any normalisation. A text that is only a link has 19 raw characters
  and an empty normalised form, and it goes through the adapters and the combiner.
\<close>

theorem short_normalized_text_is_analyzed:
  "length (preprocess_text ''https://t.co/abc123'') < 10
   \<and> analyze wordless_analyzer ''https://t.co/abc123'' \<noteq> Inr too_short"
proof
  have p: "preprocess_text ''https://t.co/abc123'' = []" by code_simp
  then show "length (preprocess_text ''https://t.co/abc123'') < 10" by simp
  have s: "strip ''https://t.co/abc123'' = ''https://t.co/abc123''" by code_simp
  have e: "ensemble_combine (get_ensemble_predictions wordless_analyzer [])
             = Inr (''neutral'', 1 / 2, [(''positive'', 0), (''negative'', 0), (''neutral'', 1 / 3)])"
    by (simp add: get_ensemble_predictions_def wordless_analyzer_def normalize_vader_output_def
        normalize_textblob_output_def ensemble_combine_def combined_scores_def dict_get_def
        weights_def max_by_value_def CONFIDENCE_THRESHOLD_def)
  show "analyze wordless_analyzer ''https://t.co/abc123'' \<noteq> Inr too_short"
    by (simp add: analyze_def s p e too_short_def Let_def)
qed

text \<open>
  Claim C2, amended. For every analyzer, whichever classifiers it holds and whatever they
  answer, a text that is empty or whose raw form after \<^verbatim>\<open>strip()\<close> has fewer than 10
  characters gets the fixed verdict: neutral, confidence 0.5, scores 0.33, 0.33 and 0.34,
  details \<^verbatim>\<open>Text too short for analysis\<close>.
\<close>

theorem short_raw_text_fixed_verdict:
  assumes "text = [] \<or> length (strip text) < 10"
  shows "analyze a text =
           Inr \<lparr>sentiment = ''neutral'', confidence = 0.5,
                scores = [(''positive'', 0.33), (''negative'', 0.33), (''neutral'', 0.34)],
                details = Message ''Text too short for analysis''\<rparr>"
  using assms by (simp add: analyze_def too_short_def)

theorem short_raw_text_fixed_verdict_witness:
  "analyze wordless_analyzer ''  Good news  '' =
           Inr \<lparr>sentiment = ''neutral'', confidence = 0.5,
                scores = [(''positive'', 0.33), (''negative'', 0.33), (''neutral'', 0.34)],
                details = Message ''Text too short for analysis''\<rparr>"
proof -
  have "strip ''  Good news  '' = ''Good news''" by code_simp
  then have "''  Good news  '' = [] \<or> length (strip ''  Good news  '') < 10" by simp
  then show ?thesis by (rule short_raw_text_fixed_verdict)
qed

lemma fold_insert_result_summary:
  "analysis_summary (pending (fold (\<lambda>article. execute_write (insert_result clk keywords article)) articles conn))
     = analysis_summary (pending conn)
   \<and> summary_seq (pending (fold (\<lambda>article. execute_write (insert_result clk keywords article)) articles conn))
     = summary_seq (pending conn)"
  by (induction articles arbitrary: conn) (simp_all add: execute_write_def insert_result_def)

lemma fold_insert_result_length:
  "length (analysis_results (pending (fold (\<lambda>article. execute_write (insert_result clk keywords article)) articles conn)))
     = length (analysis_results (pending conn)) + length articles"
  by (induction articles arbitrary: conn) (simp_all add: execute_write_def insert_result_def)

lemma store_analysis_summary:
  "fst (store_analysis clk keywords articles db) = True
   \<and> analysis_summary (snd (store_analysis clk keywords articles db)) =
       filter (\<lambda>r. \<not> (s_keywords r = keywords \<and> s_date r = today clk)) (analysis_summary db) @
       [\<lparr>s_id = summary_seq db + 1,
         s_keywords = keywords,
         s_date = today clk,
         s_total_articles = length articles,
         s_positive_count = length (filter (\<lambda>a. a_sentiment a = Some ''positive'') articles),
         s_negative_count = length (filter (\<lambda>a. a_sentiment a = Some ''negative'') articles),
         s_neutral_count = length (filter (\<lambda>a. a_sentiment a = Some ''neutral'') articles),
         s_avg_confidence =
           (if articles \<noteq> []
            then sum_list (map (\<lambda>a. get_or (a_confidence a) 0) articles) / real (length articles)
            else 0),
         s_created_at = current_timestamp clk\<rparr>]"
  using fold_insert_result_summary[of clk "keywords" articles "connect db"]
  by (simp add: store_analysis_def update_summary_def execute_write_def commit_def
      insert_or_replace_summary_def Let_def connect_def)

text \<open>
  Claim C5. When \<^verbatim>\<open>store_analysis\<close> writes a batch for a topic and the summary table already
  holds a row for that topic and today, the call succeeds and afterwards the table holds the
  rows of all other keys as they were, followed by one row for (topic, today) whose counts and
  average confidence are computed from the batch alone; no value of the old row enters it.
\<close>

theorem store_analysis_replaces_summary:
  assumes "old \<in> set (analysis_summary db)"
    and "s_keywords old = keywords" and "s_date old = today clk"
  shows "fst (store_analysis clk keywords articles db) = True
   \<and> length (analysis_results (snd (store_analysis clk keywords articles db)))
       = length (analysis_results db) + length articles
   \<and> analysis_summary (snd (store_analysis clk keywords articles db)) =
       filter (\<lambda>r. \<not> (s_keywords r = keywords \<and> s_date r = today clk)) (analysis_summary db) @
       [\<lparr>s_id = summary_seq db + 1,
         s_keywords = keywords,
         s_date = today clk,
         s_total_articles = length articles,
         s_positive_count = length (filter (\<lambda>a. a_sentiment a = Some ''positive'') articles),
         s_negative_count = length (filter (\<lambda>a. a_sentiment a = Some ''negative'') articles),
         s_neutral_count = length (filter (\<lambda>a. a_sentiment a = Some ''neutral'') articles),
         s_avg_confidence =
           (if articles \<noteq> []
            then sum_list (map (\<lambda>a. get_or (a_confidence a) 0) articles) / real (length articles)
            else 0),
         s_created_at = current_timestamp clk\<rparr>]
   \<and> old \<notin> set (filter (\<lambda>r. \<not> (s_keywords r = keywords \<and> s_date r = today clk)) (analysis_summary db))"
proof -
  have "length (analysis_results (snd (store_analysis clk keywords articles db)))
       = length (analysis_results db) + length articles"
    using fold_insert_result_length[of clk "keywords" articles "connect db"]
    by (simp add: store_analysis_def update_summary_def execute_write_def commit_def
        insert_or_replace_summary_def Let_def connect_def)
  moreover have "old \<notin> set (filter (\<lambda>r. \<not> (s_keywords r = keywords \<and> s_date r = today clk)) (analysis_summary db))"
    using assms by simp
  ultimately show ?thesis
    using store_analysis_summary[of clk "keywords" articles db] by simp
qed

theorem store_analysis_replaces_summary_witness:
  "fst (store_analysis clock_2026 ''economy'' [sample_article] busy_database) = True
   \<and> analysis_summary (snd (store_analysis clock_2026 ''economy'' [sample_article] busy_database)) =
       [old_summary,
        \<lparr>s_id = 3, s_keywords = ''economy'', s_date = ''2026-11-04'', s_total_articles = 1,
         s_positive_count = 0, s_negative_count = 1, s_neutral_count = 0, s_avg_confidence = 0.7,
         s_created_at = ''2026-11-04 09:00:00''\<rparr>]"
proof -
  have 1: "todays_summary \<in> set (analysis_summary busy_database)"
    by (simp add: busy_database_def)
  have 2: "s_keywords todays_summary = ''economy''" by (simp add: todays_summary_def)
  have 3: "s_date todays_summary = today clock_2026"
    by (simp add: todays_summary_def clock_2026_def)
  from store_analysis_replaces_summary[OF 1 2 3, of "[sample_article]"] show ?thesis
    by (simp add: busy_database_def todays_summary_def old_summary_def clock_2026_def
        sample_article_def get_or_def)
qed

text \<open>
  Claim C10. \<^verbatim>\<open>store_analysis\<close> on an empty batch returns \<^verbatim>\<open>True\<close>; the verdict table and
  its counter are unchanged, and the summary table loses any row stored for (topic, today)
  and gains a row for (topic, today) with \<open>total_articles\<close> 0, the three counts 0 and
  \<open>avg_confidence\<close> 0.
\<close>

theorem store_analysis_empty_batch:
  "store_analysis clk keywords [] db =
     (True,
      db\<lparr>analysis_summary :=
           filter (\<lambda>r. \<not> (s_keywords r = keywords \<and> s_date r = today clk)) (analysis_summary db) @
           [\<lparr>s_id = summary_seq db + 1, s_keywords = keywords, s_date = today clk,
             s_total_articles = 0, s_positive_count = 0, s_negative_count = 0,
             s_neutral_count = 0, s_avg_confidence = 0,
             s_created_at = current_timestamp clk\<rparr>],
         summary_seq := summary_seq db + 1\<rparr>)"
  by (simp add: store_analysis_def update_summary_def execute_write_def commit_def
      insert_or_replace_summary_def connect_def)

theorem store_analysis_empty_batch_witness:
  "store_analysis clock_2026 ''economy'' [] busy_database =
     (True,
      \<lparr>analysis_results = [old_result],
       analysis_summary =
         [old_summary,
          \<lparr>s_id = 3, s_keywords = ''economy'', s_date = ''2026-11-04'', s_total_articles = 0,
           s_positive_count = 0, s_negative_count = 0, s_neutral_count = 0, s_avg_confidence = 0,
           s_created_at = ''2026-11-04 09:00:00''\<rparr>],
       results_seq = 1, summary_seq = 3\<rparr>)"
  using store_analysis_empty_batch[of clock_2026 "''economy''" busy_database]
  by (simp add: busy_database_def todays_summary_def old_summary_def clock_2026_def)

lemma cleanup_old_data_changes_nothing:
  "cleanup_old_data clk days db = (Some OperationalError, db)"
  by (simp add: cleanup_old_data_def execute_vacuum_def execute_write_def connect_def
      rollback_def)

text \<open>
  Claim C8 against the code. \<^verbatim>\<open>cleanup_old_data\<close> issues \<^verbatim>\<open>VACUUM\<close> while the
  transaction opened by its two \<^verbatim>\<open>DELETE\<close> statements is still open. SQLite refuses,
  the exception leaves the \<^verbatim>\<open>with\<close> block, both deletions are rolled back and the
  \<^verbatim>\<open>except\<close> branch logs the error: on 2026-11-04 with \<open>days = 30\<close> the verdict and the
  summary of the year 2000, both older than the cutoff 2026-10-05, are still stored.
\<close>

theorem cleanup_old_data_keeps_old_rows:
  "cleanup_old_data clock_2026 30 old_database = (Some OperationalError, old_database)
   \<and> analysis_results old_database = [old_result]
   \<and> sqlite_date (r_created_at old_result) < days_ago clock_2026 30
   \<and> analysis_summary old_database = [old_summary]
   \<and> s_date old_summary < days_ago clock_2026 30"
  by (simp add: cleanup_old_data_def execute_vacuum_def execute_write_def connect_def
      rollback_def old_database_def old_result_def old_summary_def clock_2026_def sqlite_date_def)

lemma split_on_no_sep: "d \<notin> set u \<Longrightarrow> split_on d u = [u]"
  by (induction u) auto

lemma split_on_first_sep: "d \<notin> set u \<Longrightarrow> split_on d (u @ d # v) = u # split_on d v"
  by (induction u) auto

lemma first_sep_decomp:
  assumes "d \<in> set s"
  shows "\<exists>u v. s = u @ d # v \<and> d \<notin> set u"
  using assms by (meson split_list_first)

lemma take_sentences_length:
  "length truncated \<le> max_length \<Longrightarrow> length (take_sentences sentences truncated) \<le> max_length"
  by (induction sentences arbitrary: truncated) auto

lemma in_take_sep: "length u < n \<Longrightarrow> d \<in> set (take n (u @ d # v))"
proof -
  assume "length u < n"
  then obtain m where "n - length u = Suc m" by (metis Suc_diff_Suc)
  then show ?thesis by simp
qed

lemma take_sentences_stop:
  assumes "CHR ''.'' \<notin> set (take (max_length - length acc) s)"
    and "max_length \<le> length acc + length s"
  shows "take_sentences (split_on CHR ''.'' s) acc = acc"
proof (cases "CHR ''.'' \<in> set s")
  case False
  then have "split_on CHR ''.'' s = [s]" by (rule split_on_no_sep)
  then show ?thesis using assms(2) by simp
next
  case True
  from first_sep_decomp[OF True] obtain u v where s: "s = u @ CHR ''.'' # v"
    and u: "CHR ''.'' \<notin> set u" by blast
  have "\<not> length u < max_length - length acc"
    using assms(1) in_take_sep[of u "max_length - length acc" "CHR ''.''" v] unfolding s by blast
  then have "\<not> length (acc @ u) < max_length" by simp
  moreover have "split_on CHR ''.'' s = u # split_on CHR ''.'' v"
    unfolding s by (rule split_on_first_sep[OF u])
  ultimately show ?thesis by simp
qed

lemma take_sentences_cut:
  assumes "length acc + length u < max_length"
    and "CHR ''.'' \<notin> set (take (max_length - (length acc + length u + 1)) v)"
    and "max_length \<le> length acc + length u + 1 + length v"
  shows "take_sentences (split_on CHR ''.'' (u @ CHR ''.'' # v)) acc = acc @ u @ ''.''"
  using assms
proof (induction u arbitrary: acc rule: length_induct)
  case (1 u)
  show ?case
  proof (cases "CHR ''.'' \<in> set u")
    case False
    have "take_sentences (split_on CHR ''.'' v) (acc @ u @ ''.'') = acc @ u @ ''.''"
      by (rule take_sentences_stop) (use "1.prems" in simp_all)
    then show ?thesis
      using "1.prems"(1) by (simp add: split_on_first_sep[OF False])
  next
    case True
    from first_sep_decomp[OF True] obtain u1 u2 where u: "u = u1 @ CHR ''.'' # u2"
      and u1: "CHR ''.'' \<notin> set u1" by blast
    have "length u2 < length u" by (simp add: u)
    moreover have "length (acc @ u1 @ ''.'') + length u2 < max_length"
      using "1.prems"(1) by (simp add: u)
    moreover have "CHR ''.'' \<notin> set (take (max_length - (length (acc @ u1 @ ''.'') + length u2 + 1)) v)"
      using "1.prems"(2) by (simp add: u add.assoc)
    moreover have "max_length \<le> length (acc @ u1 @ ''.'') + length u2 + 1 + length v"
      using "1.prems"(3) by (simp add: u)
    ultimately have "take_sentences (split_on CHR ''.'' (u2 @ CHR ''.'' # v)) (acc @ u1 @ ''.'')
        = (acc @ u1 @ ''.'') @ u2 @ ''.''"
      using "1.IH" by blast
    moreover have "length (acc @ u1) < max_length" using "1.prems"(1) by (simp add: u)
    ultimately show ?thesis
      using split_on_first_sep[OF u1, of "u2 @ CHR ''.'' # v"] by (simp add: u)
  qed
qed

lemma limit_length_short: "length text \<le> max_length \<Longrightarrow> limit_length text = text"
  by (simp add: limit_length_def)

lemma limit_length_le: "length (limit_length text) \<le> max_length"
  using take_sentences_length[of "[]" "split_on CHR ''.'' text"]
  by (simp add: limit_length_def Let_def)

lemma limit_length_last_boundary:
  assumes "max_length < length text" and "i < max_length" and "text ! i = CHR ''.''"
    and "\<forall>j. i < j \<and> j < max_length \<longrightarrow> text ! j \<noteq> CHR ''.''"
  shows "limit_length text = take (Suc i) text"
proof -
  let ?u = "take i text" and ?v = "drop (Suc i) text"
  have i: "i < length text" using assms(1,2) by simp
  have t: "text = ?u @ CHR ''.'' # ?v"
    using id_take_nth_drop[OF i] assms(3) by simp
  have "length ([] :: string) + length ?u < max_length" using i assms(2) by simp
  moreover have "CHR ''.'' \<notin> set (take (max_length - (length ([] :: string) + length ?u + 1)) ?v)"
  proof
    assume "CHR ''.'' \<in> set (take (max_length - (length ([] :: string) + length ?u + 1)) ?v)"
    then obtain k where k: "k < length (take (max_length - (length ([] :: string) + length ?u + 1)) ?v)"
      and e: "take (max_length - (length ([] :: string) + length ?u + 1)) ?v ! k = CHR ''.''"
      by (auto simp: in_set_conv_nth)
    from k i have k1: "k < max_length - (i + 1)" and k2: "Suc i + k < length text" by auto
    from e k1 k2 have "text ! (Suc i + k) = CHR ''.''" by simp
    moreover have "i < Suc i + k \<and> Suc i + k < max_length" using k1 by simp
    ultimately show False using assms(4) by blast
  qed
  moreover have "max_length \<le> length ([] :: string) + length ?u + 1 + length ?v"
    using i assms(1) by simp
  ultimately have "take_sentences (split_on CHR ''.'' (?u @ CHR ''.'' # ?v)) [] = [] @ ?u @ ''.''"
    by (rule take_sentences_cut)
  then have "take_sentences (split_on CHR ''.'' text) [] = ?u @ ''.''"
    using t by simp
  moreover have "?u @ ''.'' = take (Suc i) text"
    using take_Suc_conv_app_nth[OF i] assms(3) by simp
  ultimately show ?thesis using assms(1) by (simp add: limit_length_def Let_def)
qed

lemma limit_length_hard:
  assumes "max_length < length text" and "\<forall>j < max_length. text ! j \<noteq> CHR ''.''"
  shows "limit_length text = take max_length text"
proof -
  have "CHR ''.'' \<notin> set (take (max_length - length ([] :: string)) text)"
  proof
    assume "CHR ''.'' \<in> set (take (max_length - length ([] :: string)) text)"
    then obtain k where "k < max_length" "k < length text" "text ! k = CHR ''.''"
      by (auto simp: in_set_conv_nth)
    with assms(2) show False by blast
  qed
  then have "take_sentences (split_on CHR ''.'' text) [] = []"
    by (rule take_sentences_stop) (use assms(1) in simp)
  then show ?thesis using assms(1) by (simp add: limit_length_def)
qed

lemma strip_length: "length (strip s) \<le> length s"
proof -
  have "length (strip s) \<le> length (dropWhile is_space s)"
    unfolding strip_def using length_dropWhile_le[of is_space "rev (dropWhile is_space s)"] by simp
  also have "\<dots> \<le> length s" by (rule length_dropWhile_le)
  finally show ?thesis .
qed

lemma preprocess_text_length: "length (preprocess_text raw) \<le> max_length"
  unfolding preprocess_text_def Let_def
  using strip_length limit_length_le le_trans by blast

lemma char_class_facts:
  "\<not> kept_char CHR ''/''" "\<not> kept_char CHR ''@''" "kept_char CHR ''.''" "kept_char CHR '' ''"
  "is_space CHR '' ''" "\<not> is_space CHR ''.''"
  by (simp_all add: kept_char_def is_word_def is_space_def in_range_def code_def less_eq_char_def)

lemma rmatch_set: "t \<in> set (rmatch r s) \<Longrightarrow> set t \<subseteq> set s"
proof (induction r s arbitrary: t rule: rmatch.induct)
  case (1 s)
  then show ?case by simp
next
  case (2 P s)
  then show ?case by (cases s) (auto split: if_splits)
next
  case (3 a b s)
  from "3.prems" obtain m where m: "m \<in> set (rmatch a s)" and t: "t \<in> set (rmatch b m)"
    by auto
  from "3.IH"(1)[OF m] "3.IH"(2)[OF m t] show ?case by blast
next
  case (4 a b s)
  then show ?case by auto
next
  case (5 a s)
  then show ?case by auto
next
  case (6 a s)
  from "6.prems" obtain m where m: "m \<in> set (rmatch a s)"
    and t: "t \<in> set ((if length m < length s then rmatch (Plus a) m else []) @ [m])"
    by (subst (asm) rmatch.simps(6)) auto
  have ms: "set m \<subseteq> set s" by (rule "6.IH"(1)[OF m])
  show ?case
  proof (cases "t = m")
    case True
    with ms show ?thesis by simp
  next
    case False
    with t have l: "length m < length s" and t': "t \<in> set (rmatch (Plus a) m)"
      by (auto split: if_splits)
    from "6.IH"(2)[OF m l t'] ms show ?thesis by blast
  qed
qed

lemma seq_no_match:
  "(\<And>t. t \<in> set (rmatch a s) \<Longrightarrow> rmatch b t = []) \<Longrightarrow> rmatch (Seq a b) s = []"
  by simp

lemma lit_match:
  "rmatch (lit w) s = (if take (length w) s = w then [drop (length w) s] else [])"
proof (induction w arbitrary: s)
  case Nil
  then show ?case by (simp add: lit_def)
next
  case (Cons c w)
  have "lit (c # w) = Seq (Class (\<lambda>x. x = c)) (lit w)" by (simp add: lit_def)
  then show ?case using Cons.IH by (cases s) auto
qed

lemma url_needs_slash:
  assumes "CHR ''/'' \<notin> set s"
  shows "rmatch url_pattern s = []"
  unfolding url_pattern_def
proof (rule seq_no_match)
  fix t1 assume "t1 \<in> set (rmatch (lit ''http'') s)"
  then have s1: "CHR ''/'' \<notin> set t1" using rmatch_set assms by blast
  show "rmatch (Seq (Opt (Class (\<lambda>c. c = CHR ''s''))) (Seq (lit ''://'') (Plus url_char))) t1 = []"
  proof (rule seq_no_match)
    fix t2 assume "t2 \<in> set (rmatch (Opt (Class (\<lambda>c. c = CHR ''s''))) t1)"
    then have s2: "CHR ''/'' \<notin> set t2" using rmatch_set s1 by blast
    have "take (length ''://'') t2 \<noteq> ''://''"
    proof
      assume "take (length ''://'') t2 = ''://''"
      then have "CHR ''/'' \<in> set (take (length ''://'') t2)" by simp
      then have "CHR ''/'' \<in> set t2" by (rule in_set_takeD)
      with s2 show False by contradiction
    qed
    then have "rmatch (lit ''://'') t2 = []" by (simp only: lit_match if_False)
    then show "rmatch (Seq (lit ''://'') (Plus url_char)) t2 = []"
      by (simp only: rmatch.simps list.map concat.simps)
  qed
qed

lemma email_needs_at:
  assumes "CHR ''@'' \<notin> set s"
  shows "rmatch email_pattern s = []"
  unfolding email_pattern_def
proof (rule seq_no_match)
  fix t assume "t \<in> set (rmatch (Plus (Class (\<lambda>c. \<not> is_space c))) s)"
  then have "CHR ''@'' \<notin> set t" using rmatch_set assms by blast
  then have "rmatch (Class (\<lambda>c. c = CHR ''@'')) t = []" by (cases t) auto
  then show "rmatch (Seq (Class (\<lambda>c. c = CHR ''@'')) (Plus (Class (\<lambda>c. \<not> is_space c)))) t = []"
    by (simp only: rmatch.simps list.map concat.simps)
qed

lemma re_sub_no_match:
  "(\<And>t. set t \<subseteq> set s \<Longrightarrow> rmatch r t = []) \<Longrightarrow> re_sub r repl s = s"
proof (induction s)
  case Nil
  then show ?case by simp
next
  case (Cons c s)
  have "rmatch r (c # s) = []" by (rule Cons.prems) simp
  moreover have "re_sub r repl s = s" by (rule Cons.IH, rule Cons.prems) auto
  ultimately show ?case by simp
qed

lemma re_sub_class: "re_sub (Class P) [] s = filter (\<lambda>c. \<not> P c) s"
  by (induction s) auto

lemma plus_class_Nil: "rmatch (Plus (Class P)) [] = []"
  by (subst rmatch.simps(6)) simp

lemma plus_class_Cons:
  "rmatch (Plus (Class P)) (c # s) = (if P c then rmatch (Plus (Class P)) s @ [s] else [])"
  by (subst rmatch.simps(6)) simp

lemma plus_class_head:
  "P c \<Longrightarrow> \<exists>ts. rmatch (Plus (Class P)) (c # s) = dropWhile P s # ts"
proof (induction s arbitrary: c)
  case Nil
  then show ?case by (simp add: plus_class_Cons plus_class_Nil)
next
  case (Cons d s)
  show ?case
  proof (cases "P d")
    case True
    from Cons.IH[OF True] obtain ts where "rmatch (Plus (Class P)) (d # s) = dropWhile P s # ts"
      by blast
    then have "rmatch (Plus (Class P)) (c # d # s) = dropWhile P (d # s) # (ts @ [d # s])"
      using Cons.prems True by (simp add: plus_class_Cons[of P c])
    then show ?thesis by blast
  next
    case False
    then have "rmatch (Plus (Class P)) (c # d # s) = dropWhile P (d # s) # []"
      using Cons.prems by (simp add: plus_class_Cons)
    then show ?thesis by blast
  qed
qed

lemma re_sub_ws_Cons:
  "re_sub whitespace_pattern repl (c # s) =
     (if is_space c then repl @ re_sub whitespace_pattern repl (dropWhile is_space s)
      else c # re_sub whitespace_pattern repl s)"
proof (cases "is_space c")
  case True
  from plus_class_head[of is_space c s, OF True] obtain ts where
    "rmatch whitespace_pattern (c # s) = dropWhile is_space s # ts"
    unfolding whitespace_pattern_def by blast
  moreover have "length (dropWhile is_space s) < length (c # s)"
    using length_dropWhile_le[of is_space s] by simp
  ultimately show ?thesis using True by simp
next
  case False
  then have "rmatch whitespace_pattern (c # s) = []"
    by (simp add: whitespace_pattern_def plus_class_Cons)
  then show ?thesis using False by simp
qed

lemma ws_only_blank:
  "c \<in> set (re_sub whitespace_pattern '' '' s) \<Longrightarrow> is_space c \<Longrightarrow> c = CHR '' ''"
proof (induction s rule: length_induct)
  case (1 s)
  show ?case
  proof (cases s)
    case Nil
    with "1.prems" show ?thesis by simp
  next
    case (Cons d s')
    show ?thesis
    proof (cases "is_space d")
      case True
      let ?t = "dropWhile is_space s'"
      have l: "length ?t < length s"
        using length_dropWhile_le[of is_space s'] Cons by simp
      have "re_sub whitespace_pattern '' '' s = CHR '' '' # re_sub whitespace_pattern '' '' ?t"
        using True Cons by (simp add: re_sub_ws_Cons del: re_sub.simps(2))
      with "1.prems"(1) have "c = CHR '' '' \<or> c \<in> set (re_sub whitespace_pattern '' '' ?t)"
        by simp
      then show ?thesis
      proof
        assume "c = CHR '' ''" then show ?thesis .
      next
        assume "c \<in> set (re_sub whitespace_pattern '' '' ?t)"
        with "1.IH" l "1.prems"(2) show ?thesis by blast
      qed
    next
      case False
      have l: "length s' < length s" using Cons by simp
      have "re_sub whitespace_pattern '' '' s = d # re_sub whitespace_pattern '' '' s'"
        using False Cons by (simp add: re_sub_ws_Cons del: re_sub.simps(2))
      with "1.prems"(1) have "c = d \<or> c \<in> set (re_sub whitespace_pattern '' '' s')"
        by simp
      then show ?thesis
      proof
        assume "c = d" with False "1.prems"(2) show ?thesis by simp
      next
        assume "c \<in> set (re_sub whitespace_pattern '' '' s')"
        with "1.IH" l "1.prems"(2) show ?thesis by blast
      qed
    qed
  qed
qed

lemma ws_member:
  "c \<in> set (re_sub whitespace_pattern '' '' s) \<Longrightarrow> c \<in> set s \<or> c = CHR '' ''"
proof (induction s rule: length_induct)
  case (1 s)
  show ?case
  proof (cases s)
    case Nil
    with "1.prems" show ?thesis by simp
  next
    case (Cons d s')
    show ?thesis
    proof (cases "is_space d")
      case True
      let ?t = "dropWhile is_space s'"
      have l: "length ?t < length s"
        using length_dropWhile_le[of is_space s'] Cons by simp
      have "re_sub whitespace_pattern '' '' s = CHR '' '' # re_sub whitespace_pattern '' '' ?t"
        using True Cons by (simp add: re_sub_ws_Cons del: re_sub.simps(2))
      with "1.prems" have "c = CHR '' '' \<or> c \<in> set (re_sub whitespace_pattern '' '' ?t)"
        by simp
      then show ?thesis
      proof
        assume "c = CHR '' ''" then show ?thesis by simp
      next
        assume "c \<in> set (re_sub whitespace_pattern '' '' ?t)"
        with "1.IH" l have "c \<in> set ?t \<or> c = CHR '' ''" by blast
        then show ?thesis
        proof
          assume "c \<in> set ?t"
          then have "c \<in> set s'" by (rule set_dropWhileD)
          then show ?thesis using Cons by simp
        next
          assume "c = CHR '' ''" then show ?thesis by simp
        qed
      qed
    next
      case False
      have l: "length s' < length s" using Cons by simp
      have "re_sub whitespace_pattern '' '' s = d # re_sub whitespace_pattern '' '' s'"
        using False Cons by (simp add: re_sub_ws_Cons del: re_sub.simps(2))
      with "1.prems" have "c = d \<or> c \<in> set (re_sub whitespace_pattern '' '' s')"
        by simp
      then show ?thesis
      proof
        assume "c = d" then show ?thesis using Cons by simp
      next
        assume "c \<in> set (re_sub whitespace_pattern '' '' s')"
        with "1.IH" l have "c \<in> set s' \<or> c = CHR '' ''" by blast
        then show ?thesis using Cons by auto
      qed
    qed
  qed
qed

lemma ws_length: "length (re_sub whitespace_pattern '' '' s) \<le> length s"
proof (induction s rule: length_induct)
  case (1 s)
  show ?case
  proof (cases s)
    case Nil
    then show ?thesis by simp
  next
    case (Cons d s')
    show ?thesis
    proof (cases "is_space d")
      case True
      have l: "length (dropWhile is_space s') \<le> length s'" by (rule length_dropWhile_le)
      then have "length (dropWhile is_space s') < length s" using Cons by simp
      with "1.IH" have "length (re_sub whitespace_pattern '' '' (dropWhile is_space s'))
          \<le> length (dropWhile is_space s')" by blast
      with l show ?thesis using True Cons
        by (simp add: re_sub_ws_Cons del: re_sub.simps(2))
    next
      case False
      have "length s' < length s" using Cons by simp
      with "1.IH" have "length (re_sub whitespace_pattern '' '' s') \<le> length s'" by blast
      then show ?thesis using False Cons
        by (simp add: re_sub_ws_Cons del: re_sub.simps(2))
    qed
  qed
qed

lemma ws_last:
  "s \<noteq> [] \<Longrightarrow> \<not> is_space (last s) \<Longrightarrow>
     re_sub whitespace_pattern '' '' s \<noteq> [] \<and> last (re_sub whitespace_pattern '' '' s) = last s"
proof (induction s rule: length_induct)
  case (1 s)
  from "1.prems"(1) obtain d s' where s: "s = d # s'" by (cases s) auto
  show ?case
  proof (cases "is_space d")
    case True
    with "1.prems"(2) s have ne: "s' \<noteq> []" by auto
    then have ls: "last s = last s'" using s by simp
    let ?t = "dropWhile is_space s'"
    have "last s' \<in> set s'" using ne by simp
    then have lt: "last ?t = last s'" using "1.prems"(2) ls by (simp add: dropWhile_last)
    have tne: "?t \<noteq> []" using ne "1.prems"(2) ls last_in_set[OF ne] by auto
    have "length ?t < length s" using length_dropWhile_le[of is_space s'] s by simp
    moreover have "\<not> is_space (last ?t)" using lt ls "1.prems"(2) by simp
    ultimately have "re_sub whitespace_pattern '' '' ?t \<noteq> []
        \<and> last (re_sub whitespace_pattern '' '' ?t) = last ?t"
      using "1.IH" tne by blast
    then show ?thesis using True s lt ls
      by (simp add: re_sub_ws_Cons del: re_sub.simps(2))
  next
    case False
    show ?thesis
    proof (cases "s' = []")
      case True
      then show ?thesis using False s by (simp add: re_sub_ws_Cons del: re_sub.simps(2))
    next
      case ne: False
      then have ls: "last s = last s'" using s by simp
      have "length s' < length s" using s by simp
      then have "re_sub whitespace_pattern '' '' s' \<noteq> []
        \<and> last (re_sub whitespace_pattern '' '' s') = last s'"
        using "1.IH" ne "1.prems"(2) ls by simp
      then show ?thesis using False s ls
        by (simp add: re_sub_ws_Cons del: re_sub.simps(2))
    qed
  qed
qed

lemma adjacent_spaces_Cons:
  "c \<noteq> CHR '' '' \<Longrightarrow> adjacent_spaces (c # s) = adjacent_spaces s"
  by (cases s) simp_all

lemma ws_fixpoint:
  assumes "\<forall>c \<in> set s. is_space c \<longrightarrow> c = CHR '' ''"
  shows "re_sub whitespace_pattern '' '' s = s \<longleftrightarrow> \<not> adjacent_spaces s"
  using assms
proof (induction s)
  case Nil
  then show ?case by simp
next
  case (Cons c s)
  from Cons.prems have tl: "\<forall>c \<in> set s. is_space c \<longrightarrow> c = CHR '' ''" by simp
  note IH = Cons.IH[OF tl]
  show ?case
  proof (cases "is_space c")
    case False
    then have "c \<noteq> CHR '' ''" using char_class_facts(5) by auto
    then show ?thesis using False IH
      by (simp add: re_sub_ws_Cons adjacent_spaces_Cons del: re_sub.simps(2))
  next
    case True
    with Cons.prems have c: "c = CHR '' ''" by simp
    show ?thesis
    proof (cases s)
      case Nil
      then show ?thesis using True c by (simp add: re_sub_ws_Cons del: re_sub.simps(2))
    next
      case s: (Cons b s'')
      show ?thesis
      proof (cases "is_space b")
        case b: True
        with tl s have "b = CHR '' ''" by simp
        then have adj: "adjacent_spaces (c # s)" using c s by simp
        have "length (dropWhile is_space s) < length s"
          using b s length_dropWhile_le[of is_space s''] by simp
        then have "length (re_sub whitespace_pattern '' '' (dropWhile is_space s)) < length s"
          using ws_length[of "dropWhile is_space s"] by simp
        then have "re_sub whitespace_pattern '' '' (dropWhile is_space s) \<noteq> s" by auto
        then show ?thesis using adj True
          by (simp add: re_sub_ws_Cons del: re_sub.simps(2))
      next
        case b: False
        then have "b \<noteq> CHR '' ''" using char_class_facts(5) by auto
        then have "adjacent_spaces (c # s) = adjacent_spaces s" using s by simp
        moreover have "dropWhile is_space s = s" using b s by simp
        ultimately show ?thesis using True IH c
          by (simp add: re_sub_ws_Cons del: re_sub.simps(2))
      qed
    qed
  qed
qed

lemma strip_member: "c \<in> set (strip s) \<Longrightarrow> c \<in> set s"
proof -
  assume "c \<in> set (strip s)"
  then have "c \<in> set (dropWhile is_space (rev (dropWhile is_space s)))"
    by (simp add: strip_def)
  then have "c \<in> set (rev (dropWhile is_space s))" by (rule set_dropWhileD)
  then have "c \<in> set (dropWhile is_space s)" by simp
  then show ?thesis by (rule set_dropWhileD)
qed

lemma last_dropWhile: "dropWhile P xs \<noteq> [] \<Longrightarrow> last (dropWhile P xs) = last xs"
proof -
  assume ne: "dropWhile P xs \<noteq> []"
  have "last (takeWhile P xs @ dropWhile P xs) = last (dropWhile P xs)"
    using ne by (rule last_appendR)
  then show ?thesis by simp
qed

lemma strip_ends:
  assumes "strip s \<noteq> []"
  shows "\<not> is_space (hd (strip s)) \<and> \<not> is_space (last (strip s))"
proof -
  let ?w = "dropWhile is_space s"
  let ?z = "dropWhile is_space (rev ?w)"
  have st: "strip s = rev ?z" by (simp add: strip_def)
  from assms st have z: "?z \<noteq> []" by simp
  have w: "?w \<noteq> []"
  proof
    assume a: "?w = []"
    have "?z = dropWhile is_space (rev [])" by (simp only: a)
    then have "?z = []" by (simp only: rev.simps dropWhile.simps)
    with z show False by contradiction
  qed
  have "\<not> is_space (hd ?z)" using z by (rule hd_dropWhile)
  then have l: "\<not> is_space (last (strip s))" using z st by (simp add: last_rev)
  have "last ?z = last (rev ?w)" using z by (rule last_dropWhile)
  also have "\<dots> = hd ?w" using w by (simp add: last_rev)
  finally have "hd (strip s) = hd ?w" using z st by (simp add: hd_rev)
  moreover have "\<not> is_space (hd ?w)" using w by (rule hd_dropWhile)
  ultimately show ?thesis using l by simp
qed

lemma strip_id:
  assumes "s = [] \<or> (\<not> is_space (hd s) \<and> \<not> is_space (last s))"
  shows "strip s = s"
proof (cases "s = []")
  case True
  then show ?thesis by (simp add: strip_def)
next
  case False
  with assms have h: "\<not> is_space (hd s)" and l: "\<not> is_space (last s)" by simp_all
  have 1: "dropWhile is_space s = s" using h by (simp add: dropWhile_eq_self_iff)
  have "\<not> is_space (hd (rev s))" using l False by (simp add: hd_rev)
  then have 2: "dropWhile is_space (rev s) = rev s" by (simp add: dropWhile_eq_self_iff)
  show ?thesis by (simp add: strip_def 1 2)
qed

lemma split_on_nonempty: "split_on d s \<noteq> []"
  by (induction s) (simp_all split: list.splits)

lemma split_on_member: "p \<in> set (split_on d s) \<Longrightarrow> c \<in> set p \<Longrightarrow> c \<in> set s"
proof (induction s arbitrary: p)
  case Nil
  then show ?case by simp
next
  case (Cons a s)
  show ?case
  proof (cases "a = d")
    case True
    with Cons.prems have "p = [] \<or> p \<in> set (split_on d s)" by simp
    with Cons.prems(2) Cons.IH show ?thesis by auto
  next
    case False
    obtain q qs where q: "split_on d s = q # qs"
      using split_on_nonempty[of d s] by (cases "split_on d s") simp_all
    with False Cons.prems(1) have "p = a # q \<or> p \<in> set qs" by simp
    then show ?thesis
    proof
      assume "p = a # q"
      with Cons.prems(2) have "c = a \<or> c \<in> set q" by simp
      moreover have "q \<in> set (split_on d s)" using q by simp
      ultimately show ?thesis using Cons.IH by auto
    next
      assume "p \<in> set qs"
      then have "p \<in> set (split_on d s)" using q by simp
      with Cons.IH Cons.prems(2) show ?thesis by auto
    qed
  qed
qed

lemma take_sentences_member:
  "c \<in> set (take_sentences ss acc) \<Longrightarrow>
     c \<in> set acc \<or> (\<exists>p \<in> set ss. c \<in> set p) \<or> c = CHR ''.''"
proof (induction ss arbitrary: acc)
  case Nil
  then show ?case by simp
next
  case (Cons sentence ss)
  show ?case
  proof (cases "length (acc @ sentence) < max_length")
    case True
    with Cons.prems have "c \<in> set (take_sentences ss (acc @ sentence @ ''.''))" by simp
    from Cons.IH[OF this] show ?thesis by auto
  next
    case False
    with Cons.prems show ?thesis by simp
  qed
qed

lemma limit_length_member:
  assumes "c \<in> set (limit_length t)"
  shows "c \<in> set t \<or> c = CHR ''.''"
proof (cases "max_length < length t")
  case False
  with assms show ?thesis by (simp add: limit_length_def)
next
  case True
  let ?tr = "take_sentences (split_on CHR ''.'' t) []"
  show ?thesis
  proof (cases "?tr = []")
    case True
    with assms \<open>max_length < length t\<close> have "c \<in> set (take max_length t)"
      by (simp add: limit_length_def)
    then show ?thesis using in_set_takeD by fast
  next
    case False
    with assms \<open>max_length < length t\<close> have "c \<in> set ?tr"
      by (simp add: limit_length_def)
    from take_sentences_member[OF this] show ?thesis
      using split_on_member by auto
  qed
qed

lemma first_pass_chars:
  assumes "c \<in> set (preprocess_text x)"
  shows "kept_char c \<and> (is_space c \<longrightarrow> c = CHR '' '')"
proof -
  let ?u3 = "re_sub whitespace_pattern '' '' (re_sub email_pattern [] (re_sub url_pattern [] x))"
  let ?u4 = "re_sub special_pattern [] ?u3"
  have u4: "?u4 = filter (\<lambda>c. \<not> \<not> kept_char c) ?u3"
    unfolding special_pattern_def by (rule re_sub_class)
  from assms have "c \<in> set (strip (limit_length ?u4))"
    by (simp add: preprocess_text_def)
  then have "c \<in> set (limit_length ?u4)" by (rule strip_member)
  then have "c \<in> set ?u4 \<or> c = CHR ''.''" by (rule limit_length_member)
  then show ?thesis
  proof
    assume "c \<in> set ?u4"
    then have k: "kept_char c" and "c \<in> set ?u3" unfolding u4 by simp_all
    then have "is_space c \<longrightarrow> c = CHR '' ''" using ws_only_blank by blast
    with k show ?thesis by simp
  next
    assume "c = CHR ''.''"
    then show ?thesis using char_class_facts(3,6) by simp
  qed
qed

lemma second_pass:
  assumes chars: "\<And>c. c \<in> set y \<Longrightarrow> kept_char c"
    and len: "length y \<le> max_length"
    and ends: "y = [] \<or> (\<not> is_space (hd y) \<and> \<not> is_space (last y))"
  shows "preprocess_text y = re_sub whitespace_pattern '' '' y"
proof -
  let ?v = "re_sub whitespace_pattern '' '' y"
  have "CHR ''/'' \<notin> set y" using chars char_class_facts(1) by blast
  then have "\<And>t. set t \<subseteq> set y \<Longrightarrow> rmatch url_pattern t = []"
    using url_needs_slash by blast
  then have 1: "re_sub url_pattern [] y = y" by (rule re_sub_no_match)
  have "CHR ''@'' \<notin> set y" using chars char_class_facts(2) by blast
  then have "\<And>t. set t \<subseteq> set y \<Longrightarrow> rmatch email_pattern t = []"
    using email_needs_at by blast
  then have 2: "re_sub email_pattern [] y = y" by (rule re_sub_no_match)
  have "\<And>c. c \<in> set ?v \<Longrightarrow> kept_char c"
    using ws_member chars char_class_facts(4) by blast
  then have "filter (\<lambda>c. \<not> \<not> kept_char c) ?v = ?v" by simp
  then have 3: "re_sub special_pattern [] ?v = ?v"
    unfolding special_pattern_def by (simp only: re_sub_class)
  have "length ?v \<le> max_length" using ws_length[of y] len by simp
  then have 4: "limit_length ?v = ?v" by (rule limit_length_short)
  have 5: "strip ?v = ?v"
  proof (cases "y = []")
    case True
    then show ?thesis by (simp add: strip_def)
  next
    case False
    with ends have h: "\<not> is_space (hd y)" and l: "\<not> is_space (last y)" by simp_all
    from False obtain c s where y: "y = c # s" by (cases y) auto
    with h have "?v = c # re_sub whitespace_pattern '' '' s"
      by (simp add: re_sub_ws_Cons del: re_sub.simps(2))
    then have hv: "\<not> is_space (hd ?v)" using h y by simp
    from ws_last[OF False l] have "\<not> is_space (last ?v)" using l by simp
    with hv show ?thesis by (intro strip_id) simp
  qed
  show ?thesis by (simp add: preprocess_text_def 1 2 3 4 5)
qed

lemma preprocess_text_second_pass:
  "preprocess_text (preprocess_text x) = re_sub whitespace_pattern '' '' (preprocess_text x)"
proof (rule second_pass)
  show "\<And>c. c \<in> set (preprocess_text x) \<Longrightarrow> kept_char c"
    using first_pass_chars by blast
  show "length (preprocess_text x) \<le> max_length" by (rule preprocess_text_length)
  show "preprocess_text x = [] \<or>
      (\<not> is_space (hd (preprocess_text x)) \<and> \<not> is_space (last (preprocess_text x)))"
    unfolding preprocess_text_def Let_def using strip_ends by blast
qed

text \<open>
  Claim C6 fails as stated: whitespace is collapsed before the special characters are
  removed, so removing the \<^verbatim>\<open>#\<close> between two blanks leaves two neighbouring blanks, which
  only a second pass collapses.
\<close>

theorem preprocess_text_not_idempotent:
  "preprocess_text (preprocess_text ''a # b'') \<noteq> preprocess_text ''a # b''"
proof -
  have 1: "preprocess_text ''a # b'' = ''a  b''" by code_simp
  have 2: "preprocess_text ''a  b'' = ''a b''" by code_simp
  show ?thesis by (simp add: 1 2)
qed

text \<open>
  Claim C6, amended. A second pass of the normaliser only collapses the runs of blanks the
  first pass left behind: it leaves the output of the first pass unchanged exactly when that
  output has no two neighbouring blanks.
\<close>

theorem preprocess_text_idempotent_iff:
  "preprocess_text (preprocess_text x) = preprocess_text x
     \<longleftrightarrow> \<not> adjacent_spaces (preprocess_text x)"
proof -
  have "\<forall>c \<in> set (preprocess_text x). is_space c \<longrightarrow> c = CHR '' ''"
    using first_pass_chars by blast
  then have "re_sub whitespace_pattern '' '' (preprocess_text x) = preprocess_text x
     \<longleftrightarrow> \<not> adjacent_spaces (preprocess_text x)"
    by (rule ws_fixpoint)
  then show ?thesis by (simp only: preprocess_text_second_pass)
qed

theorem preprocess_text_idempotent_iff_witness:
  "\<not> adjacent_spaces (preprocess_text ''Mail joe@example.com  now (please)!'')
   \<and> preprocess_text (preprocess_text ''Mail joe@example.com  now (please)!'')
       = preprocess_text ''Mail joe@example.com  now (please)!''"
proof -
  have 1: "preprocess_text ''Mail joe@example.com  now (please)!'' = ''Mail now please!''"
    by code_simp
  have 2: "\<not> adjacent_spaces ''Mail now please!''" by simp
  from preprocess_text_idempotent_iff[of "''Mail joe@example.com  now (please)!''"] 1 2
  show ?thesis by simp
qed

lemma preprocess_text_cleaned: "preprocess_text raw = strip (limit_length (cleaned raw))"
  by (simp add: preprocess_text_def cleaned_def)

lemma whitespace_needs_space:
  assumes "\<And>c. c \<in> set s \<Longrightarrow> \<not> is_space c"
  shows "rmatch whitespace_pattern s = []"
proof (cases s)
  case Nil
  then show ?thesis by (simp add: whitespace_pattern_def plus_class_Nil)
next
  case (Cons c t)
  then have "\<not> is_space c" using assms by simp
  then show ?thesis using Cons by (simp add: whitespace_pattern_def plus_class_Cons)
qed

lemma cleaned_plain:
  assumes "\<And>c. c \<in> set s \<Longrightarrow> kept_char c \<and> \<not> is_space c"
  shows "cleaned s = s"
proof -
  have "CHR ''/'' \<notin> set s" using assms char_class_facts(1) by blast
  then have "\<And>t. set t \<subseteq> set s \<Longrightarrow> rmatch url_pattern t = []"
    using url_needs_slash by blast
  then have 1: "re_sub url_pattern [] s = s" by (rule re_sub_no_match)
  have "CHR ''@'' \<notin> set s" using assms char_class_facts(2) by blast
  then have "\<And>t. set t \<subseteq> set s \<Longrightarrow> rmatch email_pattern t = []"
    using email_needs_at by blast
  then have 2: "re_sub email_pattern [] s = s" by (rule re_sub_no_match)
  have "\<And>t. set t \<subseteq> set s \<Longrightarrow> rmatch whitespace_pattern t = []"
  proof (rule whitespace_needs_space)
    fix t c assume "set t \<subseteq> set s" and "c \<in> set t"
    then have "c \<in> set s" by (rule subsetD)
    then show "\<not> is_space c" using assms by simp
  qed
  then have 3: "re_sub whitespace_pattern '' '' s = s" by (rule re_sub_no_match)
  have "filter (\<lambda>c. \<not> \<not> kept_char c) s = s" using assms by simp
  then have 4: "re_sub special_pattern [] s = s"
    unfolding special_pattern_def by (simp only: re_sub_class)
  show ?thesis by (simp add: cleaned_def 1 2 3 4)
qed

text \<open>
  Claim C7. The normaliser returns at most 512 characters. Let the cleaned text be the input
  after URL and email removal, whitespace collapsing and character filtering. When it has at
  most 512 characters the normaliser returns it trimmed. When it is longer and its last full
  stop among its first 512 characters is at index \<open>i\<close>, the normaliser returns it cut right
  behind that full stop, trimmed. When it is longer and has no full stop among its first 512
  characters, the normaliser returns exactly its first 512 characters, trimmed.
\<close>

theorem preprocess_text_sentence_boundary:
  "length (preprocess_text raw) \<le> 512
   \<and> (length (cleaned short) \<le> 512 \<longrightarrow> preprocess_text short = strip (cleaned short))
   \<and> (512 < length (cleaned dotted) \<and> i < 512 \<and> cleaned dotted ! i = CHR ''.''
        \<and> (\<forall>j. i < j \<and> j < 512 \<longrightarrow> cleaned dotted ! j \<noteq> CHR ''.'')
      \<longrightarrow> preprocess_text dotted = strip (take (Suc i) (cleaned dotted)))
   \<and> (512 < length (cleaned solid) \<and> (\<forall>j < 512. cleaned solid ! j \<noteq> CHR ''.'')
      \<longrightarrow> preprocess_text solid = strip (take 512 (cleaned solid))
          \<and> length (take 512 (cleaned solid)) = 512)"
proof (intro conjI impI)
  show "length (preprocess_text raw) \<le> 512"
    using preprocess_text_length[of raw] by (simp add: max_length_def)
  show "preprocess_text short = strip (cleaned short)" if "length (cleaned short) \<le> 512"
    using that by (simp add: preprocess_text_cleaned limit_length_short max_length_def)
  show "preprocess_text dotted = strip (take (Suc i) (cleaned dotted))"
    if h: "512 < length (cleaned dotted) \<and> i < 512 \<and> cleaned dotted ! i = CHR ''.''
        \<and> (\<forall>j. i < j \<and> j < 512 \<longrightarrow> cleaned dotted ! j \<noteq> CHR ''.'')"
  proof -
    have "limit_length (cleaned dotted) = take (Suc i) (cleaned dotted)"
      using h by (intro limit_length_last_boundary) (simp_all add: max_length_def)
    then show ?thesis by (simp add: preprocess_text_cleaned)
  qed
  assume s: "512 < length (cleaned solid) \<and> (\<forall>j < 512. cleaned solid ! j \<noteq> CHR ''.'')"
  then have "limit_length (cleaned solid) = take 512 (cleaned solid)"
    using limit_length_hard[of "cleaned solid"] by (simp add: max_length_def)
  then show "preprocess_text solid = strip (take 512 (cleaned solid))"
    by (simp add: preprocess_text_cleaned)
  show "length (take 512 (cleaned solid)) = 512" using s by simp
qed

theorem preprocess_text_sentence_boundary_witness:
  "preprocess_text (replicate 300 CHR ''a'' @ CHR ''.'' # replicate 300 CHR ''b'')
     = replicate 300 CHR ''a'' @ ''.''
   \<and> preprocess_text (replicate 600 CHR ''a'') = replicate 512 CHR ''a''
   \<and> preprocess_text ''Fine.'' = ''Fine.''"
proof -
  let ?d = "replicate 300 CHR ''a'' @ CHR ''.'' # replicate 300 CHR ''b''"
  let ?s = "replicate 600 CHR ''a''"
  have a: "kept_char CHR ''a'' \<and> \<not> is_space CHR ''a''"
    and b: "kept_char CHR ''b'' \<and> \<not> is_space CHR ''b''"
    and dot: "kept_char CHR ''.'' \<and> \<not> is_space CHR ''.''"
    by (simp_all add: kept_char_def is_word_def is_space_def in_range_def code_def
        less_eq_char_def)
  have cd: "cleaned ?d = ?d"
  proof (rule cleaned_plain)
    fix c assume "c \<in> set ?d"
    then have "c = CHR ''a'' \<or> c = CHR ''.'' \<or> c = CHR ''b''" by auto
    with a b dot show "kept_char c \<and> \<not> is_space c" by blast
  qed
  have cs: "cleaned ?s = ?s"
  proof (rule cleaned_plain)
    fix c assume "c \<in> set ?s"
    then have "c = CHR ''a''" by simp
    with a show "kept_char c \<and> \<not> is_space c" by simp
  qed
  have cf: "cleaned ''Fine.'' = ''Fine.''" by code_simp
  have d1: "512 < length (cleaned ?d)" by (simp add: cd)
  have i: "(300 :: nat) < 512" by simp
  have d2: "cleaned ?d ! 300 = CHR ''.''" by (simp add: cd nth_append)
  have d3: "\<forall>j. 300 < j \<and> j < 512 \<longrightarrow> cleaned ?d ! j \<noteq> CHR ''.''"
  proof (intro allI impI)
    fix j :: nat
    assume j: "300 < j \<and> j < 512"
    then have "j - 301 < 300" by arith
    then have "replicate 300 CHR ''b'' ! (j - 301) = CHR ''b''" by (rule nth_replicate)
    with j show "cleaned ?d ! j \<noteq> CHR ''.''" by (simp add: cd nth_append nth_Cons')
  qed
  have s: "512 < length (cleaned ?s) \<and> (\<forall>j < 512. cleaned ?s ! j \<noteq> CHR ''.'')"
    by (simp add: cs)
  have f: "length (cleaned ''Fine.'') \<le> 512" by (simp add: cf)
  from preprocess_text_sentence_boundary[of "[]" "''Fine.''" ?d 300 ?s] d1 i d2 d3 s f
  have r: "preprocess_text ?d = strip (take (Suc 300) (cleaned ?d))"
    "preprocess_text ?s = strip (take 512 (cleaned ?s))"
    "preprocess_text ''Fine.'' = strip (cleaned ''Fine.'')"
    by blast+
  have "strip (replicate 300 CHR ''a'' @ ''.'') = replicate 300 CHR ''a'' @ ''.''"
    using a dot by (intro strip_id) (simp add: hd_append)
  moreover have "strip (replicate 512 CHR ''a'') = replicate 512 CHR ''a''"
    using a by (intro strip_id) simp
  moreover have "strip ''Fine.'' = ''Fine.''" by code_simp
  ultimately show ?thesis using r by (simp add: cd cs cf)
qed

end
